theory Spec2Isabelle
  imports Complex_Main "HOL-Library.Word" "HOL-Library.Log_Nat"
begin

section \<open>Python numbers\<close>

text \<open>
  Python integers are unbounded and are modelled by \<open>int\<close> and \<open>nat\<close>. A Python
  \<^verbatim>\<open>float\<close> is an IEEE 754 binary64 number; a finite one is a rational, so floats are
  modelled by their exact value in \<open>rat\<close>, and every float operation of the source is
  the exact operation followed by \<open>fl\<close>, rounding to the nearest number with a 53 bit
  significand, ties to even. The exponent range is not bounded: overflow to infinity and
  subnormal numbers are outside the model (the products and quotients of the source stay
  far from both).
\<close>

definition ilog2 :: "rat \<Rightarrow> int" where
  \<comment> \<open>for positive \<open>x\<close>, the exponent \<open>e\<close> with \<open>2 powi e \<le> x < 2 powi (e + 1)\<close>\<close>
  "ilog2 x = (if 1 \<le> x then bitlen \<lfloor>x\<rfloor> - 1 else - bitlen (\<lceil>1 / x\<rceil> - 1))"

definition round_half_even :: "rat \<Rightarrow> int" where
  "round_half_even x =
     (let f = \<lfloor>x\<rfloor>; r = x - of_int f
      in if r < 1 / 2 then f else if 1 / 2 < r then f + 1 else if even f then f else f + 1)"

definition fl :: "rat \<Rightarrow> rat" where
  "fl x = (if x = 0 then 0
           else let u = 2 powi (ilog2 \<bar>x\<bar> - 52) in of_int (round_half_even (x / u)) * u)"

definition py_int :: "rat \<Rightarrow> int" where
  \<comment> \<open>\<^verbatim>\<open>int(x)\<close> on a float truncates towards zero\<close>
  "py_int x = (if 0 \<le> x then \<lfloor>x\<rfloor> else \<lceil>x\<rceil>)"

section \<open>audio\_engine.py\<close>

definition SAMPLE_RATE :: nat where
  "SAMPLE_RATE = 16000"

definition CHUNK_SIZE :: nat where
  "CHUNK_SIZE = 4000"

definition BYTES_PER_SAMPLE :: nat where
  "BYTES_PER_SAMPLE = 2"

definition clamp16 :: "int \<Rightarrow> int" where
  "clamp16 v = max (- 32768) (min 32767 v)"

type_synonym byte = "8 word"

text \<open>A \<^verbatim>\<open>pyaudio.Stream\<close> object is identified by a number.\<close>

type_synonym stream = nat

datatype py_error = OSError | KeyError | IndexError | StructError | RuntimeError string

subsection \<open>struct.unpack and struct.pack with format \<^verbatim>\<open><4000h\<close>\<close>

definition unpack_int16 :: "byte \<Rightarrow> byte \<Rightarrow> int" where
  \<comment> \<open>one little-endian signed 16 bit sample\<close>
  "unpack_int16 lo hi =
     (let u = uint lo + 256 * uint hi in if u < 32768 then u else u - 65536)"

fun unpack_pairs :: "byte list \<Rightarrow> int list" where
  "unpack_pairs (lo # hi # rest) = unpack_int16 lo hi # unpack_pairs rest"
| "unpack_pairs _ = []"

definition struct_unpack :: "byte list \<Rightarrow> py_error + int list" where
  \<comment> \<open>\<^verbatim>\<open>struct.error\<close> unless the buffer holds exactly 4000 samples\<close>
  "struct_unpack raw =
     (if length raw = CHUNK_SIZE * BYTES_PER_SAMPLE then Inr (unpack_pairs raw)
      else Inl StructError)"

definition pack_int16 :: "int \<Rightarrow> byte list" where
  "pack_int16 v = [word_of_int v, word_of_int (v div 256)]"

definition int16_range :: "int \<Rightarrow> bool" where
  "int16_range v = (- 32768 \<le> v \<and> v \<le> 32767)"

definition struct_pack :: "int list \<Rightarrow> py_error + byte list" where
  \<comment> \<open>\<^verbatim>\<open>struct.error\<close> on a wrong number of values or a value outside int16\<close>
  "struct_pack vs =
     (if length vs = CHUNK_SIZE \<and> list_all int16_range vs
      then Inr (concat (map pack_int16 vs)) else Inl StructError)"

subsection \<open>The engine and the PortAudio layer\<close>

text \<open>
  A source configuration is a dictionary; the code reads \<^verbatim>\<open>enabled\<close> and \<^verbatim>\<open>gain\<close> with
  \<^verbatim>\<open>get\<close> and a default, and \<^verbatim>\<open>device_index\<close> by subscript, which raises \<^verbatim>\<open>KeyError\<close>
  on a missing key. A missing key is \<open>None\<close>.
\<close>

record source =
  src_device_index :: "int option"
  src_gain :: "rat option"
  src_enabled :: "bool option"

text \<open>
  The calls made to the audio layer are logged in \<open>calls\<close>, in order; \<open>next_stream\<close>
  numbers the stream objects that \<^verbatim>\<open>self._pa.open\<close> returns. \<open>streams\<close> is
  \<^verbatim>\<open>self._streams\<close>.
\<close>

datatype pa_call = IsActive stream | StopStream stream | Close stream | Open int

record audio_engine =
  streams :: "(stream \<times> rat) list"
  next_stream :: stream
  calls :: "pa_call list"

text \<open>
  What the audio layer answers: whether \<^verbatim>\<open>open\<close> on a device index succeeds (otherwise
  \<^verbatim>\<open>OSError\<close>), what \<^verbatim>\<open>is_active\<close> returns (\<open>None\<close>: it raises \<^verbatim>\<open>OSError\<close>), and whether
  \<^verbatim>\<open>stop_stream\<close> returns (otherwise \<^verbatim>\<open>OSError\<close>). An \<^verbatim>\<open>OSError\<close> of \<^verbatim>\<open>close\<close> changes
  nothing in the control flow and is not represented.
\<close>

record pa_env =
  open_ok :: "int \<Rightarrow> bool"
  is_active :: "stream \<Rightarrow> bool option"
  stop_ok :: "stream \<Rightarrow> bool"

fun close_loop :: "pa_env \<Rightarrow> (stream \<times> rat) list \<Rightarrow> pa_call list" where
  "close_loop env [] = []"
| "close_loop env ((stream, _) # rest) =
     (case is_active env stream of
        None \<Rightarrow> [IsActive stream]
      | Some True \<Rightarrow>
          (if stop_ok env stream then [IsActive stream, StopStream stream, Close stream]
           else [IsActive stream, StopStream stream])
      | Some False \<Rightarrow> [IsActive stream, Close stream])
     @ close_loop env rest"

definition close_streams :: "pa_env \<Rightarrow> audio_engine \<Rightarrow> audio_engine" where
  "close_streams env eng =
     eng\<lparr>calls := calls eng @ close_loop env (streams eng), streams := []\<rparr>"

definition get_enabled :: "source \<Rightarrow> bool" where
  \<comment> \<open>\<^verbatim>\<open>src.get("enabled", False)\<close>\<close>
  "get_enabled src = (case src_enabled src of None \<Rightarrow> False | Some b \<Rightarrow> b)"

definition get_gain :: "source \<Rightarrow> rat" where
  \<comment> \<open>\<^verbatim>\<open>src.get("gain", 1.0)\<close>\<close>
  "get_gain src = (case src_gain src of None \<Rightarrow> 1 | Some g \<Rightarrow> g)"

text \<open>
  The result of a method that can raise is the exception, if any, and the engine as the
  call leaves it. \<^verbatim>\<open>init\<close> only creates the PyAudio instance when there is none; it is
  taken to succeed and leaves the engine as it is.
\<close>

fun open_loop ::
  "pa_env \<Rightarrow> source list \<Rightarrow> audio_engine \<Rightarrow> py_error option \<times> audio_engine" where
  "open_loop env [] eng = (None, eng)"
| "open_loop env (src # sources) eng =
     (if get_enabled src
      then (case src_device_index src of
              None \<Rightarrow> (Some KeyError, eng)
            | Some device_index \<Rightarrow>
                (let gain = get_gain src;
                     eng' = eng\<lparr>calls := calls eng @ [Open device_index]\<rparr>
                 in if open_ok env device_index
                    then open_loop env sources
                           (eng'\<lparr>streams := streams eng' @ [(next_stream eng', gain)],
                                 next_stream := Suc (next_stream eng')\<rparr>)
                    else open_loop env sources eng'))
      else open_loop env sources eng)"

definition no_streams_message :: string where
  "no_streams_message = ''No audio streams could be opened. Check your device settings.''"

definition open_streams ::
  "pa_env \<Rightarrow> source list \<Rightarrow> audio_engine \<Rightarrow> py_error option \<times> audio_engine" where
  "open_streams env sources eng =
     (case open_loop env sources (close_streams env eng) of
        (Some e, eng') \<Rightarrow> (Some e, eng')
      | (None, eng') \<Rightarrow>
          if streams eng' = [] then (Some (RuntimeError no_streams_message), eng')
          else (None, eng'))"

subsection \<open>read\_and\_mix\<close>

text \<open>
  What one stream does in one cycle: \<^verbatim>\<open>is_active\<close> raises \<^verbatim>\<open>OSError\<close>, or returns
  false, or \<^verbatim>\<open>read\<close> raises \<^verbatim>\<open>OSError\<close>, or \<^verbatim>\<open>read\<close> returns a buffer.
\<close>

datatype stream_cycle = IsActiveError | Inactive | ReadError | Frame "byte list"

fun add_samples :: "nat \<Rightarrow> int list \<Rightarrow> rat \<Rightarrow> int list \<Rightarrow> py_error + int list" where
  \<comment> \<open>\<^verbatim>\<open>for i, s in enumerate(samples): mixed[i] += int(s * gain)\<close>\<close>
  "add_samples i [] gain mixed = Inr mixed"
| "add_samples i (s # samples) gain mixed =
     (if i < length mixed
      then add_samples (Suc i) samples gain
             (mixed[i := mixed ! i + py_int (fl (of_int s * gain))])
      else Inl IndexError)"

fun mix_loop ::
  "(stream \<Rightarrow> stream_cycle) \<Rightarrow> (stream \<times> rat) list \<Rightarrow> int list \<Rightarrow> py_error + int list" where
  "mix_loop io [] mixed = Inr mixed"
| "mix_loop io ((stream, gain) # rest) mixed =
     (case io stream of
        Frame raw \<Rightarrow>
          (case struct_unpack raw of
             Inl e \<Rightarrow> Inl e
           | Inr samples \<Rightarrow>
               (case add_samples 0 samples gain mixed of
                  Inl e \<Rightarrow> Inl e
                | Inr mixed' \<Rightarrow> mix_loop io rest mixed'))
      | _ \<Rightarrow> mix_loop io rest mixed)"

definition read_and_mix ::
  "(stream \<Rightarrow> stream_cycle) \<Rightarrow> audio_engine \<Rightarrow> py_error + byte list" where
  "read_and_mix io eng =
     (if streams eng = [] then Inr []
      else case mix_loop io (streams eng) (replicate CHUNK_SIZE 0) of
             Inl e \<Rightarrow> Inl e
           | Inr mixed \<Rightarrow> struct_pack (map clamp16 mixed))"

text \<open>
  Vocabulary for statements about frames: the sample at a position of a buffer, the
  buffer that repeats one sample, what one stream adds at a position, the pre-clamp sum
  at a position, and the length that \<^verbatim>\<open>read(CHUNK_SIZE)\<close> returns on an int16 mono stream.
\<close>

definition sample_at :: "byte list \<Rightarrow> nat \<Rightarrow> int" where
  "sample_at raw i = unpack_int16 (raw ! (2 * i)) (raw ! (2 * i + 1))"

definition const_frame :: "byte \<Rightarrow> byte \<Rightarrow> byte list" where
  "const_frame lo hi = concat (replicate CHUNK_SIZE [lo, hi])"

definition contribution :: "stream_cycle \<Rightarrow> rat \<Rightarrow> nat \<Rightarrow> int" where
  "contribution c gain i =
     (case c of Frame raw \<Rightarrow> py_int (fl (of_int (sample_at raw i) * gain)) | _ \<Rightarrow> 0)"

definition mixed_sum :: "(stream \<Rightarrow> stream_cycle) \<Rightarrow> (stream \<times> rat) list \<Rightarrow> nat \<Rightarrow> int" where
  "mixed_sum io handles i =
     sum_list (map (\<lambda>(stream, gain). contribution (io stream) gain i) handles)"

definition frame_sized :: "stream_cycle \<Rightarrow> bool" where
  "frame_sized c =
     (case c of Frame raw \<Rightarrow> length raw = CHUNK_SIZE * BYTES_PER_SAMPLE | _ \<Rightarrow> True)"

definition delivers :: "stream_cycle \<Rightarrow> bool" where
  "delivers c = (case c of Frame raw \<Rightarrow> True | _ \<Rightarrow> False)"

text \<open>
  The mixing rule as the specification words it, in its two forms: the rounded sum of the
  products, and the sum of the rounded products, each clamped.
\<close>

definition spec_round_of_sum :: "(int \<times> rat) list \<Rightarrow> int" where
  "spec_round_of_sum sgs = clamp16 (round (sum_list (map (\<lambda>(s, g). of_int s * g) sgs)))"

definition spec_sum_of_rounds :: "(int \<times> rat) list \<Rightarrow> int" where
  "spec_sum_of_rounds sgs = clamp16 (sum_list (map (\<lambda>(s, g). round (of_int s * g)) sgs))"

section \<open>transcription\_engine.py\<close>

text \<open>
  A Python \<^verbatim>\<open>str\<close> is a list of code points. \<^verbatim>\<open>str.strip()\<close> removes leading and
  trailing characters for which \<^verbatim>\<open>isspace\<close> holds.
\<close>

type_synonym pystr = "nat list"

definition isspace :: "nat \<Rightarrow> bool" where
  "isspace c = (c \<in> set ([9, 10, 11, 12, 13, 28, 29, 30, 31, 32, 133, 160, 5760]
                          @ [8192..<8203] @ [8232, 8233, 8239, 8287, 12288]))"

definition strip :: "pystr \<Rightarrow> pystr" where
  "strip s = rev (dropWhile isspace (rev (dropWhile isspace s)))"

text \<open>
  The recognizer is external. Its answer to one chunk is either an utterance boundary
  (\<^verbatim>\<open>AcceptWaveform\<close> true) with the \<^verbatim>\<open>text\<close> field of \<^verbatim>\<open>Result()\<close>, or no boundary with
  the \<^verbatim>\<open>partial\<close> field of \<^verbatim>\<open>PartialResult()\<close>; a field that is absent from the JSON
  object is \<open>None\<close>.
\<close>

datatype reply = Utterance "pystr option" | Hypothesis "pystr option"

definition get_text :: "pystr option \<Rightarrow> pystr" where
  \<comment> \<open>\<^verbatim>\<open>result.get("text", "")\<close>\<close>
  "get_text field = (case field of None \<Rightarrow> [] | Some s \<Rightarrow> s)"

definition process_chunk :: "reply \<Rightarrow> pystr option \<times> pystr option" where
  "process_chunk r =
     (case r of
        Utterance result \<Rightarrow>
          (let text = strip (get_text result) in (if text = [] then None else Some text, None))
      | Hypothesis partial \<Rightarrow>
          (let text = strip (get_text partial) in (None, if text = [] then None else Some text)))"

definition final_result :: "pystr option \<Rightarrow> pystr option" where
  "final_result result =
     (let text = strip (get_text result) in if text = [] then None else Some text)"

definition reply_text :: "reply \<Rightarrow> pystr" where
  "reply_text r = (case r of Utterance result \<Rightarrow> get_text result | Hypothesis partial \<Rightarrow> get_text partial)"

section \<open>main.py: AudioWorker\<close>

datatype worker_event = text_ready pystr | partial_ready pystr | worker_error_occurred py_error

text \<open>
  The loop runs while \<^verbatim>\<open>self._running\<close> holds; the flags are set from another thread.
  A run is described by the cycles it goes through before it sees \<^verbatim>\<open>_running\<close> false:
  a paused cycle, or a capture cycle with what the streams deliver and what the recognizer
  answers. The trace records the events emitted, the buffers fed to the recognizer and the
  sleeps, in order.
\<close>

datatype cycle = Paused | Capture "stream \<Rightarrow> stream_cycle" reply

record worker_trace =
  emitted :: "worker_event list"
  fed :: "byte list list"
  slept :: "nat list"

definition truthy :: "pystr option \<Rightarrow> bool" where
  \<comment> \<open>the truth value of \<^verbatim>\<open>None\<close> and of the empty string is false\<close>
  "truthy t = (case t of None \<Rightarrow> False | Some s \<Rightarrow> s \<noteq> [])"

definition emit_str :: "(pystr \<Rightarrow> 'e) \<Rightarrow> pystr option \<Rightarrow> 'e list" where
  "emit_str signal t = (case t of None \<Rightarrow> [] | Some s \<Rightarrow> [signal s])"

definition cycle_events :: "pystr option \<times> pystr option \<Rightarrow> worker_event list" where
  \<comment> \<open>\<^verbatim>\<open>if final: text_ready.emit(final)\<close>, \<^verbatim>\<open>elif partial: partial_ready.emit(partial)\<close>\<close>
  "cycle_events fp =
     (case fp of
        (final, partial) \<Rightarrow>
          if truthy final then emit_str text_ready final
          else if truthy partial then emit_str partial_ready partial
          else [])"

fun capture_loop ::
  "cycle list \<Rightarrow> audio_engine \<Rightarrow> worker_trace \<Rightarrow> py_error option \<times> worker_trace" where
  "capture_loop [] eng tr = (None, tr)"
| "capture_loop (Paused # rest) eng tr = capture_loop rest eng (tr\<lparr>slept := slept tr @ [50]\<rparr>)"
| "capture_loop (Capture io r # rest) eng tr =
     (case read_and_mix io eng of
        Inl e \<Rightarrow> (Some e, tr)
      | Inr data \<Rightarrow>
          if data = [] then capture_loop rest eng (tr\<lparr>slept := slept tr @ [10]\<rparr>)
          else capture_loop rest eng
                 (tr\<lparr>fed := fed tr @ [data],
                     emitted := emitted tr @ cycle_events (process_chunk r)\<rparr>))"

definition audio_worker_run ::
  "pa_env \<Rightarrow> source list \<Rightarrow> cycle list \<Rightarrow> pystr option \<Rightarrow> audio_engine \<Rightarrow>
     py_error option \<times> worker_trace \<times> audio_engine" where
  "audio_worker_run env sources schedule flush eng =
     (case open_streams env sources eng of
        (Some e, eng') \<Rightarrow>
          (None, \<lparr>emitted = [worker_error_occurred e], fed = [], slept = []\<rparr>, eng')
      | (None, eng') \<Rightarrow>
          (case capture_loop schedule eng' \<lparr>emitted = [], fed = [], slept = []\<rparr> of
             (Some e, tr) \<Rightarrow> (Some e, tr, eng')
           | (None, tr) \<Rightarrow>
               (None,
                tr\<lparr>emitted := emitted tr @
                      (let remaining = final_result flush
                       in if truthy remaining then emit_str text_ready remaining else [])\<rparr>,
                close_streams env eng')))"

section \<open>file\_transcriber.py: FileTranscriptionWorker\<close>

definition CHUNK_FRAMES :: nat where
  "CHUNK_FRAMES = 4000"

text \<open>
  The messages carried by \<^verbatim>\<open>error_occurred\<close>: the two \<^verbatim>\<open>RuntimeError\<close>s of
  \<^verbatim>\<open>_ensure_wav\<close>, the two messages emitted by \<^verbatim>\<open>_do_transcription\<close> itself, and the text
  of any other exception that reaches the handler in \<^verbatim>\<open>run\<close>.
\<close>

datatype failure =
    FfmpegNotInstalled
  | FfmpegFailed string
  | ModelNotFound
  | EmptyAudio
  | Unexpected string

datatype file_event =
    progress_updated int
  | text_updated pystr
  | finished_signal
  | error_occurred failure

text \<open>
  What the run meets outside the worker: the result of \<^verbatim>\<open>shutil.which\<close>, the path from
  \<^verbatim>\<open>mkstemp\<close>, the exit code and diagnostic output of the converter, whether the model
  directory exists, the exception that the recognizer raises, if the run gets there (in the
  \<^verbatim>\<open>Model\<close> constructor, or in \<^verbatim>\<open>AcceptWaveform\<close> on chunk \<open>n\<close>, counting chunks from 0),
  the exception that the \<^verbatim>\<open>wave\<close> module raises, if the run gets there (in \<^verbatim>\<open>wave.open\<close>,
  or in the \<^verbatim>\<open>readframes\<close> call for chunk \<open>n\<close>), the frame count of the converted file
  (\<^verbatim>\<open>readframes\<close> delivers these frames, 4000 at a time), the recognizer's answer to each
  chunk and to the final flush, and whether \<^verbatim>\<open>os.remove\<close> raises \<^verbatim>\<open>OSError\<close>.

  \<^verbatim>\<open>cancel()\<close> is called from another thread and only ever sets the flag. The worker
  reads the flag once after the conversion (read 0) and once at the top of every loop
  iteration (read \<open>n + 1\<close> before chunk \<open>n\<close>, counting chunks from 0); \<open>cancel_at\<close>
  is the first read that sees the flag set, if any.
\<close>

datatype model_failure = LoadFails string | AcceptFails nat string

datatype wave_failure = OpenFails string | ReadFails nat string

record file_env =
  ffmpeg :: "string option"
  temp_path :: string
  returncode :: int
  stderr :: string
  model_dir_exists :: bool
  model_error :: "model_failure option"
  wave_error :: "wave_failure option"
  getnframes :: nat
  cancel_at :: "nat option"
  recognizer :: "nat \<Rightarrow> reply"
  final_text :: "pystr option"
  remove_raises :: bool

text \<open>
  The worker's own state: \<^verbatim>\<open>self._temp_wav\<close>, and whether the temporary file is on disk.
\<close>

record file_worker =
  temp_wav :: "string option"
  temp_file_exists :: bool

definition is_cancelled :: "file_env \<Rightarrow> nat \<Rightarrow> bool" where
  "is_cancelled env n = (case cancel_at env of None \<Rightarrow> False | Some c \<Rightarrow> c \<le> n)"

definition ensure_wav :: "file_env \<Rightarrow> file_worker \<Rightarrow> (failure + string) \<times> file_worker" where
  "ensure_wav env w =
     (case ffmpeg env of
        None \<Rightarrow> (Inl FfmpegNotInstalled, w)
      | Some tool \<Rightarrow>
          (let w' = w\<lparr>temp_wav := Some (temp_path env), temp_file_exists := True\<rparr>
           in if returncode env = 0 then (Inr (temp_path env), w')
              else (Inl (FfmpegFailed (take 500 (stderr env))), w')))"

definition progress_pct :: "nat \<Rightarrow> nat \<Rightarrow> int" where
  \<comment> \<open>\<^verbatim>\<open>min(int((frames_processed / total_frames) * 100), 100)\<close>\<close>
  "progress_pct frames_processed total_frames =
     min (py_int (fl (fl (of_nat frames_processed / of_nat total_frames) * 100))) 100"

definition text_events :: "pystr option \<Rightarrow> file_event list" where
  "text_events field =
     (let text = strip (get_text field) in if text = [] then [] else [text_updated text])"

definition load_failure :: "file_env \<Rightarrow> string option" where
  "load_failure env = (case model_error env of Some (LoadFails m) \<Rightarrow> Some m | _ \<Rightarrow> None)"

definition accept_failure :: "file_env \<Rightarrow> nat \<Rightarrow> string option" where
  "accept_failure env n =
     (case model_error env of
        Some (AcceptFails k m) \<Rightarrow> if k = n then Some m else None
      | _ \<Rightarrow> None)"

definition open_failure :: "file_env \<Rightarrow> string option" where
  "open_failure env = (case wave_error env of Some (OpenFails m) \<Rightarrow> Some m | _ \<Rightarrow> None)"

definition read_failure :: "file_env \<Rightarrow> nat \<Rightarrow> string option" where
  "read_failure env n =
     (case wave_error env of
        Some (ReadFails k m) \<Rightarrow> if k = n then Some m else None
      | _ \<Rightarrow> None)"

datatype loop_exit = Cancelled | Exhausted | Raised string

text \<open>
  The \<^verbatim>\<open>while True\<close> loop. \<open>n\<close> counts the chunks read so far and \<open>remaining\<close> the frames
  not yet read, so that \<^verbatim>\<open>readframes\<close> returns no data exactly when \<open>remaining\<close> is 0. The
  result is how the loop was left (by \<^verbatim>\<open>return\<close> on the flag, by \<^verbatim>\<open>break\<close>, or by an
  exception), \<^verbatim>\<open>frames_processed\<close> at that point, and the events emitted. \<^verbatim>\<open>last_pct\<close> is
  assigned only when the value changes; passing \<open>pct\<close> on is the same, since otherwise the
  two are equal.
\<close>

function chunk_loop ::
  "file_env \<Rightarrow> nat \<Rightarrow> nat \<Rightarrow> nat \<Rightarrow> nat \<Rightarrow> int \<Rightarrow> loop_exit \<times> nat \<times> file_event list" where
  "chunk_loop env total_frames n remaining frames_processed last_pct =
     (if is_cancelled env (Suc n) then (Cancelled, frames_processed, [])
      else
        (case read_failure env n of
           Some m \<Rightarrow> (Raised m, frames_processed, [])
         | None \<Rightarrow>
             if remaining = 0 then (Exhausted, frames_processed, [])
             else
               (let frames_processed' = frames_processed + CHUNK_FRAMES
                in case accept_failure env n of
                     Some m \<Rightarrow> (Raised m, frames_processed', [])
                   | None \<Rightarrow>
                       (let texts = (case recognizer env n of
                                       Utterance result \<Rightarrow> text_events result
                                     | Hypothesis partial \<Rightarrow> []);
                            pct = progress_pct frames_processed' total_frames;
                            progress = (if pct = last_pct then [] else [progress_updated pct])
                        in case chunk_loop env total_frames (Suc n) (remaining - CHUNK_FRAMES)
                                  frames_processed' pct of
                             (exit, fp, evs) \<Rightarrow> (exit, fp, texts @ progress @ evs)))))"
  by pat_completeness auto
termination
  by (relation "measure (\<lambda>(env, total_frames, n, remaining, fp, last). remaining)")
    (auto simp: CHUNK_FRAMES_def)

declare chunk_loop.simps [simp del]

text \<open>
  \<^verbatim>\<open>_do_transcription\<close> returns the exception that left it, if any, the events it
  emitted, and the worker.
\<close>

definition do_transcription ::
  "file_env \<Rightarrow> file_worker \<Rightarrow> failure option \<times> file_event list \<times> file_worker" where
  "do_transcription env w =
     (case ensure_wav env w of
        (Inl e, w') \<Rightarrow> (Some e, [], w')
      | (Inr wav_path, w') \<Rightarrow>
          if is_cancelled env 0 then (None, [], w')
          else if \<not> model_dir_exists env then (None, [error_occurred ModelNotFound], w')
          else
            (case load_failure env of
               Some m \<Rightarrow> (Some (Unexpected m), [], w')
             | None \<Rightarrow>
                 (case open_failure env of
                    Some m \<Rightarrow> (Some (Unexpected m), [], w')
                  | None \<Rightarrow>
                      (let total_frames = getnframes env
                       in if total_frames = 0 then (None, [error_occurred EmptyAudio], w')
                          else
                            (case chunk_loop env total_frames 0 total_frames 0 (- 1) of
                               (Cancelled, fp, evs) \<Rightarrow> (None, evs, w')
                             | (Raised m, fp, evs) \<Rightarrow> (Some (Unexpected m), evs, w')
                             | (Exhausted, fp, evs) \<Rightarrow>
                                 (None,
                                  evs @ text_events (final_text env)
                                    @ [progress_updated 100, finished_signal],
                                  w'))))))"

definition cleanup :: "file_env \<Rightarrow> file_worker \<Rightarrow> file_worker" where
  "cleanup env w =
     (case temp_wav w of
        None \<Rightarrow> w
      | Some path \<Rightarrow>
          if temp_file_exists w
          then w\<lparr>temp_file_exists := remove_raises env, temp_wav := None\<rparr>
          else w)"

definition file_worker_run :: "file_env \<Rightarrow> file_worker \<Rightarrow> file_event list \<times> file_worker" where
  "file_worker_run env w =
     (case do_transcription env w of
        (Some e, evs, w') \<Rightarrow> (evs @ [error_occurred e], cleanup env w')
      | (None, evs, w') \<Rightarrow> (evs, cleanup env w'))"

definition new_worker :: file_worker where
  \<comment> \<open>the worker as \<^verbatim>\<open>__init__\<close> leaves it\<close>
  "new_worker = \<lparr>temp_wav = None, temp_file_exists = False\<rparr>"

text \<open>Vocabulary for statements about the events of a run.\<close>

fun progress_values :: "file_event list \<Rightarrow> int list" where
  "progress_values [] = []"
| "progress_values (progress_updated p # evs) = p # progress_values evs"
| "progress_values (_ # evs) = progress_values evs"

fun terminal :: "file_event \<Rightarrow> bool" where
  "terminal finished_signal = True"
| "terminal (error_occurred e) = True"
| "terminal _ = False"

section \<open>Vocabulary of the statements\<close>

subsection \<open>open\_streams and close\_streams\<close>

text \<open>
  A source that \<open>open_streams\<close> tries and fails to open; the device indexes it passes to
  \<^verbatim>\<open>self._pa.open\<close>, in order (none after a \<^verbatim>\<open>KeyError\<close>); and the gains of the sources
  it opens.
\<close>

definition open_fails :: "pa_env \<Rightarrow> source \<Rightarrow> bool" where
  "open_fails env src =
     (case src_device_index src of None \<Rightarrow> False | Some d \<Rightarrow> \<not> open_ok env d)"

fun attempted :: "source list \<Rightarrow> int list" where
  "attempted [] = []"
| "attempted (src # sources) =
     (if get_enabled src
      then (case src_device_index src of None \<Rightarrow> [] | Some d \<Rightarrow> d # attempted sources)
      else attempted sources)"

fun opened_gains :: "pa_env \<Rightarrow> source list \<Rightarrow> rat list" where
  "opened_gains env [] = []"
| "opened_gains env (src # sources) =
     (if get_enabled src
      then (case src_device_index src of
              None \<Rightarrow> []
            | Some d \<Rightarrow> (if open_ok env d then [get_gain src] else []) @ opened_gains env sources)
      else opened_gains env sources)"

text \<open>
  The streams on which a call log has \<^verbatim>\<open>is_active\<close>, and those on which it has
  \<^verbatim>\<open>close\<close>; the calls that open a device; and the streams on which \<open>close_loop\<close>
  gets as far as \<^verbatim>\<open>close\<close>, which are those whose \<^verbatim>\<open>is_active\<close> and \<^verbatim>\<open>stop_stream\<close> do
  not raise.
\<close>

fun probed_streams :: "pa_call list \<Rightarrow> stream list" where
  "probed_streams [] = []"
| "probed_streams (IsActive s # cs) = s # probed_streams cs"
| "probed_streams (_ # cs) = probed_streams cs"

fun closed_streams :: "pa_call list \<Rightarrow> stream list" where
  "closed_streams [] = []"
| "closed_streams (Close s # cs) = s # closed_streams cs"
| "closed_streams (_ # cs) = closed_streams cs"

fun is_open_call :: "pa_call \<Rightarrow> bool" where
  "is_open_call (Open d) = True"
| "is_open_call _ = False"

definition closable :: "pa_env \<Rightarrow> stream \<Rightarrow> bool" where
  "closable env s =
     (case is_active env s of None \<Rightarrow> False | Some True \<Rightarrow> stop_ok env s | Some False \<Rightarrow> True)"

text \<open>Every handle the engine holds was numbered by an earlier \<^verbatim>\<open>open\<close>.\<close>

definition handles_issued :: "audio_engine \<Rightarrow> bool" where
  "handles_issued eng = list_all (\<lambda>(stream, gain). stream < next_stream eng) (streams eng)"

subsection \<open>The batch run\<close>

text \<open>
  The text events and the progress event of one loop iteration; the progress values
  emitted inside the loop of a run; a run whose conversion succeeds; and a run whose model
  and converted file load and are read without an exception.
\<close>

definition chunk_texts :: "file_env \<Rightarrow> nat \<Rightarrow> file_event list" where
  "chunk_texts env n =
     (case recognizer env n of Utterance result \<Rightarrow> text_events result | Hypothesis partial \<Rightarrow> [])"

definition chunk_progress :: "nat \<Rightarrow> nat \<Rightarrow> int \<Rightarrow> file_event list" where
  "chunk_progress frames_processed total_frames last_pct =
     (if progress_pct frames_processed total_frames = last_pct then []
      else [progress_updated (progress_pct frames_processed total_frames)])"

definition loop_progress :: "file_env \<Rightarrow> int list" where
  "loop_progress env =
     progress_values (snd (snd (chunk_loop env (getnframes env) 0 (getnframes env) 0 (- 1))))"

definition converted :: "file_env \<Rightarrow> bool" where
  "converted env = (ffmpeg env \<noteq> None \<and> returncode env = 0)"

definition loadable :: "file_env \<Rightarrow> bool" where
  "loadable env = (model_dir_exists env \<and> model_error env = None \<and> wave_error env = None)"

text \<open>
  The loop in closed form. A file of \<open>frames\<close> frames has \<open>chunk_count frames\<close> chunks,
  the last one possibly short. The loop stops at iteration \<open>n\<close> (counted from 0) before
  the end of the file when the flag is set at its check, or \<^verbatim>\<open>readframes\<close> raises, or
  \<^verbatim>\<open>AcceptWaveform\<close> raises; \<open>halt_exit\<close> is how it leaves there, and \<open>end_exit\<close> how
  it leaves at the iteration after the last chunk, where \<^verbatim>\<open>readframes\<close> returns no data.
  \<open>chunks_done\<close> is the number of chunks after which the loop went on to compute the
  percentage, and \<open>loop_outcome\<close> the way the loop is left.
\<close>

definition chunk_count :: "nat \<Rightarrow> nat" where
  "chunk_count frames = (frames + CHUNK_FRAMES - 1) div CHUNK_FRAMES"

definition halts :: "file_env \<Rightarrow> nat \<Rightarrow> bool" where
  "halts env n =
     (is_cancelled env (Suc n) \<or>
      (case read_failure env n of
         Some m \<Rightarrow> True
       | None \<Rightarrow> (case accept_failure env n of Some m \<Rightarrow> True | None \<Rightarrow> False)))"

definition halt_exit :: "file_env \<Rightarrow> nat \<Rightarrow> loop_exit" where
  "halt_exit env n =
     (if is_cancelled env (Suc n) then Cancelled
      else case read_failure env n of
             Some m \<Rightarrow> Raised m
           | None \<Rightarrow> (case accept_failure env n of Some m \<Rightarrow> Raised m | None \<Rightarrow> Exhausted))"

definition end_exit :: "file_env \<Rightarrow> nat \<Rightarrow> loop_exit" where
  "end_exit env n =
     (if is_cancelled env (Suc n) then Cancelled
      else case read_failure env n of Some m \<Rightarrow> Raised m | None \<Rightarrow> Exhausted)"

definition done_from :: "file_env \<Rightarrow> nat \<Rightarrow> nat \<Rightarrow> nat" where
  "done_from env n remaining =
     (case find (halts env) [n..<n + chunk_count remaining] of
        None \<Rightarrow> chunk_count remaining
      | Some j \<Rightarrow> j - n)"

definition exit_from :: "file_env \<Rightarrow> nat \<Rightarrow> nat \<Rightarrow> loop_exit" where
  "exit_from env n remaining =
     (case find (halts env) [n..<n + chunk_count remaining] of
        None \<Rightarrow> end_exit env (n + chunk_count remaining)
      | Some j \<Rightarrow> halt_exit env j)"

definition chunks_done :: "file_env \<Rightarrow> nat" where
  "chunks_done env = done_from env 0 (getnframes env)"

definition loop_outcome :: "file_env \<Rightarrow> loop_exit" where
  "loop_outcome env = exit_from env 0 (getnframes env)"

text \<open>
  How a run ends, read off the environment: with the failure that \<^verbatim>\<open>run\<close> reports, by
  returning on the cancellation flag, or by completing; and the terminal event that goes
  with each: \<^verbatim>\<open>error_occurred\<close> with the failure, none, \<^verbatim>\<open>finished_signal\<close>.
\<close>

datatype run_outcome = Failed failure | Stopped | Completed

definition run_outcome :: "file_env \<Rightarrow> run_outcome" where
  "run_outcome env =
     (case ffmpeg env of
        None \<Rightarrow> Failed FfmpegNotInstalled
      | Some tool \<Rightarrow>
          if returncode env \<noteq> 0 then Failed (FfmpegFailed (take 500 (stderr env)))
          else if is_cancelled env 0 then Stopped
          else if \<not> model_dir_exists env then Failed ModelNotFound
          else
            (case load_failure env of
               Some m \<Rightarrow> Failed (Unexpected m)
             | None \<Rightarrow>
                 (case open_failure env of
                    Some m \<Rightarrow> Failed (Unexpected m)
                  | None \<Rightarrow>
                      if getnframes env = 0 then Failed EmptyAudio
                      else
                        (case loop_outcome env of
                           Cancelled \<Rightarrow> Stopped
                         | Raised m \<Rightarrow> Failed (Unexpected m)
                         | Exhausted \<Rightarrow> Completed))))"

fun outcome_events :: "run_outcome \<Rightarrow> file_event list" where
  "outcome_events (Failed e) = [error_occurred e]"
| "outcome_events Stopped = []"
| "outcome_events Completed = [finished_signal]"

text \<open>The error event of the capture worker.\<close>

fun worker_terminal :: "worker_event \<Rightarrow> bool" where
  "worker_terminal (worker_error_occurred e) = True"
| "worker_terminal _ = False"

section \<open>Example inputs\<close>

text \<open>Engines holding handles, and what their streams do in a cycle.\<close>

definition two_sources :: audio_engine where
  "two_sources = \<lparr>streams = [(0, 1), (1, 1 / 2)], next_stream = 2, calls = []\<rparr>"

definition one_source :: audio_engine where
  "one_source = \<lparr>streams = [(0, 3 / 4)], next_stream = 1, calls = []\<rparr>"

definition unity_source :: audio_engine where
  "unity_source = \<lparr>streams = [(0, 1)], next_stream = 1, calls = []\<rparr>"

definition held_one :: audio_engine where
  "held_one = \<lparr>streams = [(0, 1)], next_stream = 1, calls = []\<rparr>"

definition zero_and_max :: "stream \<Rightarrow> stream_cycle" where
  "zero_and_max stream =
     (if stream = 0 then Frame (const_frame 0 0) else Frame (const_frame 255 127))"

definition all_fail :: "stream \<Rightarrow> stream_cycle" where
  "all_fail stream = (if stream = 0 then Inactive else ReadError)"

definition empty_trace :: worker_trace where
  "empty_trace = \<lparr>emitted = [], fed = [], slept = []\<rparr>"

text \<open>
  An audio layer on which no device opens; one on which every device opens and
  \<^verbatim>\<open>is_active\<close> raises on every stream; and source lists.
\<close>

definition no_device :: pa_env where
  "no_device = \<lparr>open_ok = (\<lambda>d. False), is_active = (\<lambda>s. Some True), stop_ok = (\<lambda>s. True)\<rparr>"

definition unplugged :: pa_env where
  "unplugged = \<lparr>open_ok = (\<lambda>d. True), is_active = (\<lambda>s. None), stop_ok = (\<lambda>s. True)\<rparr>"

definition disabled_and_busy :: "source list" where
  "disabled_and_busy =
     [\<lparr>src_device_index = Some 0, src_gain = Some 1, src_enabled = Some False\<rparr>,
      \<lparr>src_device_index = Some 3, src_gain = Some 2, src_enabled = Some True\<rparr>]"

definition first_device :: "source list" where
  "first_device = [\<lparr>src_device_index = Some 0, src_gain = Some 1, src_enabled = Some True\<rparr>]"

text \<open>
  A batch run over a converted file of 8000 frames in which the recognizer finds no text:
  undisturbed; cancelled after the first chunk; and cancelled after the first chunk with
  an \<^verbatim>\<open>os.remove\<close> that raises. The same run over 12000 and over 400000 frames. A run
  without ffmpeg whose flag is set; and a run over 8000 frames whose second
  \<^verbatim>\<open>readframes\<close> raises.
\<close>

definition env8000 :: file_env where
  "env8000 = \<lparr>ffmpeg = Some ''/usr/bin/ffmpeg'', temp_path = ''/tmp/tmpq3x.wav'', returncode = 0,
     stderr = [], model_dir_exists = True, model_error = None, wave_error = None,
     getnframes = 8000, cancel_at = None, recognizer = (\<lambda>n. Hypothesis None),
     final_text = None, remove_raises = False\<rparr>"

definition cancelled8000 :: file_env where
  "cancelled8000 = env8000\<lparr>cancel_at := Some 2\<rparr>"

definition locked8000 :: file_env where
  "locked8000 = env8000\<lparr>cancel_at := Some 2, remove_raises := True\<rparr>"

definition env12000 :: file_env where
  "env12000 = env8000\<lparr>getnframes := 12000\<rparr>"

definition env400000 :: file_env where
  "env400000 = env8000\<lparr>getnframes := 400000\<rparr>"

definition no_tool_cancelled :: file_env where
  "no_tool_cancelled = env8000\<lparr>ffmpeg := None, cancel_at := Some 3\<rparr>"

definition broken_read :: file_env where
  "broken_read = env8000\<lparr>wave_error := Some (ReadFails 1 ''file read failed'')\<rparr>"

text \<open>A cycle in which every stream returns a buffer of one sample.\<close>

definition short_read :: "stream \<Rightarrow> stream_cycle" where
  "short_read stream = Frame [0, 0]"

section \<open>Auxiliary facts\<close>

subsection \<open>Rounding to binary64\<close>

lemma pow2_pos: "0 < (2::rat) powi k"
  by (simp add: power_int_def)

lemma ilog2_bounds:
  assumes "0 < x"
  shows "2 powi ilog2 x \<le> x \<and> x < 2 powi (ilog2 x + 1)"
proof (cases "1 \<le> x")
  case True
  define n where "n = \<lfloor>x\<rfloor>"
  have n: "0 < n" using True by (simp add: n_def)
  have b1: "1 \<le> bitlen n" using n by (auto simp: bitlen_alt_def)
  from bitlen_bounds [OF n] have lo: "2 ^ nat (bitlen n - 1) \<le> n" and hi: "n < 2 ^ nat (bitlen n)"
    by auto
  have "(2::rat) ^ nat (bitlen n - 1) \<le> of_int n"
    using lo by (metis of_int_le_iff of_int_numeral of_int_power)
  also have "\<dots> \<le> x" by (simp add: n_def)
  finally have A: "(2::rat) ^ nat (bitlen n - 1) \<le> x" .
  have "n + 1 \<le> 2 ^ nat (bitlen n)" using hi by simp
  then have "(of_int (n + 1) :: rat) \<le> 2 ^ nat (bitlen n)"
    by (metis of_int_le_iff of_int_numeral of_int_power)
  moreover have "x < of_int (n + 1)" unfolding n_def by linarith
  ultimately have B: "x < (2::rat) ^ nat (bitlen n)" by linarith
  show ?thesis using A B b1 True
    by (simp add: ilog2_def n_def [symmetric] power_int_def)
next
  case False
  define y where "y = 1 / x"
  define m where "m = \<lceil>y\<rceil> - 1"
  have y1: "1 < y" using False assms by (simp add: y_def)
  have m: "0 < m" using y1 unfolding m_def by linarith
  have b1: "1 \<le> bitlen m" using m by (auto simp: bitlen_alt_def)
  from bitlen_bounds [OF m] have lo: "2 ^ nat (bitlen m - 1) \<le> m" and hi: "m < 2 ^ nat (bitlen m)"
    by auto
  have "(2::rat) ^ nat (bitlen m - 1) \<le> of_int m"
    using lo by (metis of_int_le_iff of_int_numeral of_int_power)
  also have "\<dots> < y" unfolding m_def by linarith
  finally have A: "(2::rat) ^ nat (bitlen m - 1) < y" .
  have "m + 1 \<le> 2 ^ nat (bitlen m)" using hi by simp
  then have "(of_int (m + 1) :: rat) \<le> 2 ^ nat (bitlen m)"
    by (metis of_int_le_iff of_int_numeral of_int_power)
  moreover have "y \<le> of_int (m + 1)" unfolding m_def by simp
  ultimately have B: "y \<le> (2::rat) ^ nat (bitlen m)" by linarith
  have x: "x = 1 / y" by (simp add: y_def)
  have C: "1 / (2::rat) ^ nat (bitlen m) \<le> x"
    unfolding x using B y1 by (simp add: frac_le)
  have D: "x < 1 / (2::rat) ^ nat (bitlen m - 1)"
    unfolding x using A by (simp add: frac_less2)
  have e: "ilog2 x = - bitlen m" using False by (simp add: ilog2_def m_def y_def)
  have p1: "(2::rat) powi (- bitlen m) = 1 / 2 ^ nat (bitlen m)"
    using b1 by (simp add: power_int_def field_simps)
  have p2: "(2::rat) powi (- bitlen m + 1) = 1 / 2 ^ nat (bitlen m - 1)"
  proof (cases "bitlen m = 1")
    case True then show ?thesis by simp
  next
    case False
    then have "- bitlen m + 1 < 0" using b1 by simp
    then show ?thesis
      by (simp add: power_int_def field_simps)
  qed
  show ?thesis unfolding e p1 p2 using C D by simp
qed


lemma pow2_mono: "a \<le> b \<Longrightarrow> (2::rat) powi a \<le> 2 powi b"
  by (rule power_int_increasing) simp_all

lemma pow2_add: "(2::rat) powi (a + b) = 2 powi a * 2 powi b"
  by (simp add: power_int_add)

lemma ilog2_unique:
  assumes "2 powi k \<le> x" and "x < 2 powi (k + 1)"
  shows "ilog2 x = k"
proof -
  have x: "0 < x" using assms(1) pow2_pos [of k] by linarith
  from ilog2_bounds [OF x] have lo: "2 powi ilog2 x \<le> x" and hi: "x < 2 powi (ilog2 x + 1)"
    by auto
  have "\<not> ilog2 x < k"
  proof
    assume "ilog2 x < k"
    then have "ilog2 x + 1 \<le> k" by simp
    from pow2_mono [OF this] hi assms(1) show False by linarith
  qed
  moreover have "\<not> k < ilog2 x"
  proof
    assume "k < ilog2 x"
    then have "k + 1 \<le> ilog2 x" by simp
    from pow2_mono [OF this] lo assms(2) show False by linarith
  qed
  ultimately show ?thesis by linarith
qed

lemma ilog2_mono:
  assumes "0 < x" and "x \<le> y"
  shows "ilog2 x \<le> ilog2 y"
proof (rule ccontr)
  assume "\<not> ilog2 x \<le> ilog2 y"
  then have "ilog2 y + 1 \<le> ilog2 x" by simp
  from pow2_mono [OF this] have "(2::rat) powi (ilog2 y + 1) \<le> 2 powi ilog2 x" .
  moreover have "2 powi ilog2 x \<le> x" using ilog2_bounds [OF assms(1)] by simp
  moreover have "y < 2 powi (ilog2 y + 1)" using ilog2_bounds [of y] assms by simp
  ultimately show False using assms(2) by linarith
qed

lemma round_half_even_of_int: "round_half_even (of_int n) = n"
  by (simp add: round_half_even_def)

lemma round_half_even_bounds: "\<lfloor>x\<rfloor> \<le> round_half_even x \<and> round_half_even x \<le> \<lfloor>x\<rfloor> + 1"
  by (simp add: round_half_even_def Let_def)

lemma round_half_even_mono:
  assumes "x \<le> y"
  shows "round_half_even x \<le> round_half_even y"
proof (cases "\<lfloor>x\<rfloor> = \<lfloor>y\<rfloor>")
  case True
  then show ?thesis using assms by (auto simp: round_half_even_def Let_def)
next
  case False
  then have "\<lfloor>x\<rfloor> < \<lfloor>y\<rfloor>" using floor_mono [OF assms] by simp
  then show ?thesis
    using round_half_even_bounds [of x] round_half_even_bounds [of y] by linarith
qed

lemma fl_zero: "fl 0 = 0"
  by (simp add: fl_def)

lemma fl_repr:
  assumes "\<bar>m\<bar> < 2 ^ 53"
  shows "fl (of_int m * 2 powi e) = of_int m * 2 powi e"
proof (cases "m = 0")
  case True
  then show ?thesis by (simp add: fl_def)
next
  case False
  define x :: rat where "x = of_int m * 2 powi e"
  define k where "k = ilog2 \<bar>x\<bar>"
  have ax: "\<bar>x\<bar> = of_int \<bar>m\<bar> * 2 powi e"
    using pow2_pos [of e] by (simp add: x_def abs_mult)
  have xpos: "0 < \<bar>x\<bar>" using False pow2_pos [of e] by (simp add: x_def)
  have "2 powi k \<le> \<bar>x\<bar>" using ilog2_bounds [OF xpos] by (simp add: k_def)
  also have "\<bar>x\<bar> < 2 ^ 53 * 2 powi e"
  proof -
    have "(of_int \<bar>m\<bar> :: rat) < 2 ^ 53" using assms
      by (metis of_int_less_iff of_int_numeral of_int_power)
    then show ?thesis unfolding ax using pow2_pos [of e] by simp
  qed
  also have "\<dots> = 2 powi (53 + e)" by (simp add: pow2_add)
  finally have "(2::rat) powi k < 2 powi (53 + e)" .
  then have "k < 53 + e"
    using pow2_mono [of "53 + e" k] by (cases "k < 53 + e") auto
  then have d: "0 \<le> e - (k - 52)" by simp
  have "x / 2 powi (k - 52) = of_int m * 2 powi (e - (k - 52))"
    by (simp add: x_def power_int_diff)
  also have "\<dots> = of_int (m * 2 ^ nat (e - (k - 52)))"
    using d by (simp add: power_int_def)
  finally have q: "x / 2 powi (k - 52) = of_int (m * 2 ^ nat (e - (k - 52)))" .
  have "fl x = of_int (round_half_even (x / 2 powi (k - 52))) * 2 powi (k - 52)"
    using xpos by (simp add: fl_def k_def Let_def)
  also have "\<dots> = x / 2 powi (k - 52) * 2 powi (k - 52)"
    unfolding q round_half_even_of_int ..
  also have "\<dots> = x" using pow2_pos [of "k - 52"] by simp
  finally show ?thesis by (simp add: x_def)
qed

lemma fl_of_int: "\<bar>m\<bar> < 2 ^ 53 \<Longrightarrow> fl (of_int m) = of_int m"
  using fl_repr [of m 0] by simp

lemma fl_bounds_pos:
  assumes "0 < x"
  shows "2 powi ilog2 x \<le> fl x \<and> fl x \<le> 2 powi (ilog2 x + 1)"
proof -
  define k where "k = ilog2 x"
  define u :: rat where "u = 2 powi (k - 52)"
  have u: "0 < u" by (simp add: u_def pow2_pos)
  have flx: "fl x = of_int (round_half_even (x / u)) * u"
    using assms by (simp add: fl_def k_def u_def Let_def)
  have lo: "2 powi k \<le> x" and hi: "x < 2 powi (k + 1)"
    using ilog2_bounds [OF assms] by (simp_all add: k_def)
  have pk: "(2::rat) powi k = 2 ^ 52 * u"
    using pow2_add [of 52 "k - 52"] by (simp add: u_def)
  have pk1: "(2::rat) powi (k + 1) = 2 ^ 53 * u"
    using pow2_add [of 53 "k - 52"] by (simp add: u_def add.commute)
  have "of_int (2 ^ 52) \<le> x / u" using lo u by (simp add: pk pos_le_divide_eq)
  from round_half_even_mono [OF this] have A: "2 ^ 52 \<le> round_half_even (x / u)"
    by (simp only: round_half_even_of_int)
  have "x / u \<le> of_int (2 ^ 53)" using hi u by (simp add: pk1 pos_divide_le_eq)
  from round_half_even_mono [OF this] have B: "round_half_even (x / u) \<le> 2 ^ 53"
    by (simp only: round_half_even_of_int)
  have A': "(2::rat) ^ 52 \<le> of_int (round_half_even (x / u))"
    using A by (metis of_int_le_iff of_int_numeral of_int_power)
  have B': "of_int (round_half_even (x / u)) \<le> (2::rat) ^ 53"
    using B by (metis of_int_le_iff of_int_numeral of_int_power)
  show ?thesis
    unfolding k_def [symmetric] pk pk1 flx using A' B' u by simp
qed

lemma fl_nonneg: "0 \<le> x \<Longrightarrow> 0 \<le> fl x"
proof (cases "x = 0")
  case True then show ?thesis by (simp add: fl_def)
next
  case False
  assume "0 \<le> x"
  with False have "0 < x" by simp
  from fl_bounds_pos [OF this] pow2_pos [of "ilog2 x"] show ?thesis by linarith
qed

lemma fl_mono_nonneg:
  assumes "0 \<le> x" and "x \<le> y"
  shows "fl x \<le> fl y"
proof (cases "x = 0")
  case True
  then show ?thesis using fl_nonneg [of y] assms by (simp add: fl_def)
next
  case False
  with assms have x: "0 < x" and y: "0 < y" by simp_all
  show ?thesis
  proof (cases "ilog2 x = ilog2 y")
    case True
    define u :: rat where "u = 2 powi (ilog2 y - 52)"
    have u: "0 < u" by (simp add: u_def pow2_pos)
    have "x / u \<le> y / u" using assms(2) u by (simp add: divide_right_mono)
    from round_half_even_mono [OF this]
    have "(of_int (round_half_even (x / u)) :: rat) \<le> of_int (round_half_even (y / u))"
      by simp
    then have "of_int (round_half_even (x / u)) * u \<le> of_int (round_half_even (y / u)) * u"
      using u by simp
    then show ?thesis using x y True by (simp add: fl_def Let_def u_def)
  next
    case False
    with ilog2_mono [OF x assms(2)] have "ilog2 x + 1 \<le> ilog2 y" by simp
    from pow2_mono [OF this] fl_bounds_pos [OF x] fl_bounds_pos [OF y]
    show ?thesis by linarith
  qed
qed

lemma py_int_of_int: "py_int (of_int n) = n"
  by (simp add: py_int_def)

lemma py_int_mono: "x \<le> y \<Longrightarrow> py_int x \<le> py_int y"
proof -
  assume xy: "x \<le> y"
  have "\<not> 0 \<le> x \<Longrightarrow> 0 \<le> y \<Longrightarrow> \<lceil>x\<rceil> \<le> \<lfloor>y\<rfloor>"
  proof -
    assume "\<not> 0 \<le> x" and "0 \<le> y"
    then have "\<lceil>x\<rceil> \<le> 0" and "0 \<le> \<lfloor>y\<rfloor>" by (simp_all add: ceiling_le_iff)
    then show ?thesis by linarith
  qed
  then show ?thesis
    using xy unfolding py_int_def by (auto intro: floor_mono ceiling_mono)
qed

subsection \<open>Samples and buffers\<close>

lemma byte_of_int_eq: "a mod 256 = b mod 256 \<Longrightarrow> (word_of_int a :: byte) = word_of_int b"
  by (simp add: word_of_int_eq_iff take_bit_eq_mod)

lemma uint_byte_bounds: "0 \<le> uint (b :: byte) \<and> uint b < 256"
  using uint_bounded [of b] by simp

lemma int16_of_u16:
  "0 \<le> a \<Longrightarrow> a < 256 \<Longrightarrow> 0 \<le> b \<Longrightarrow> b < 256 \<Longrightarrow>
   int16_range (if a + 256 * b < 32768 then a + 256 * b else a + 256 * b - 65536)"
  by (auto simp: int16_range_def)

lemma unpack_int16_range: "int16_range (unpack_int16 lo hi)"
  unfolding unpack_int16_def Let_def
  using uint_byte_bounds [of lo] uint_byte_bounds [of hi]
  by (intro int16_of_u16) simp_all

lemma pack_unpack_int16: "pack_int16 (unpack_int16 lo hi) = [lo, hi]"
proof -
  define a b where "a = uint lo" and "b = uint hi"
  have ab: "0 \<le> a" "a < 256"
    using uint_byte_bounds [of lo] by (simp_all add: a_def)
  have lo: "(word_of_int a :: byte) = lo" and hi: "(word_of_int b :: byte) = hi"
    by (simp_all add: a_def b_def)
  have d1: "(a + 256 * b) div 256 = b" using ab by simp
  have d2: "(a + 256 * b - 65536) div 256 = b - 256"
  proof -
    have "a + 256 * b - 65536 = a + 256 * (b - 256)" by simp
    also have "\<dots> div 256 = b - 256" using ab by simp
    finally show ?thesis .
  qed
  have w1: "(word_of_int (a + 256 * b) :: byte) = lo"
    unfolding lo [symmetric] by (rule byte_of_int_eq) simp
  have w2: "(word_of_int (a + 256 * b - 65536) :: byte) = lo"
  proof -
    have "a + 256 * b - 65536 = a + 256 * (b - 256)" by simp
    then have "(a + 256 * b - 65536) mod 256 = a mod 256" by (simp only: mod_mult_self2)
    then show ?thesis unfolding lo [symmetric] by (rule byte_of_int_eq)
  qed
  have w3: "(word_of_int (b - 256) :: byte) = hi"
    unfolding hi [symmetric] by (rule byte_of_int_eq) simp
  have p1: "pack_int16 (a + 256 * b) = [lo, hi]"
    unfolding pack_int16_def d1 w1 hi ..
  have p2: "pack_int16 (a + 256 * b - 65536) = [lo, hi]"
    unfolding pack_int16_def d2 w2 w3 ..
  show ?thesis
    unfolding unpack_int16_def Let_def a_def [symmetric] b_def [symmetric]
    by (cases "a + 256 * b < 32768") (simp_all only: if_True if_False p1 p2)
qed

lemma unpack_pack_int16:
  assumes "int16_range v"
  shows "unpack_int16 (word_of_int v) (word_of_int (v div 256)) = v"
proof -
  have lo: "uint (word_of_int v :: byte) = v mod 256" by (simp add: uint_word_of_int)
  have hi: "uint (word_of_int (v div 256) :: byte) = (v div 256) mod 256"
    by (simp add: uint_word_of_int)
  from assms have r: "- 32768 \<le> v" "v \<le> 32767" by (simp_all add: int16_range_def)
  have dm: "v mod 256 + 256 * (v div 256) = v" by simp
  show ?thesis
  proof (cases "0 \<le> v")
    case True
    then have "v div 256 < 256" "0 \<le> v div 256" using r by simp_all
    then have "(v div 256) mod 256 = v div 256" by simp
    then show ?thesis using True r dm by (simp add: unpack_int16_def lo hi Let_def)
  next
    case False
    then have q: "- 128 \<le> v div 256" "v div 256 < 0" using r by simp_all
    have "(v div 256 + 256) mod 256 = v div 256 + 256"
      by (rule mod_pos_pos_trivial) (use q in linarith)+
    moreover have "(v div 256) mod 256 = (v div 256 + 256) mod 256"
      by (simp only: mod_add_self2)
    ultimately have h: "(v div 256) mod 256 = v div 256 + 256" by (simp only:)
    have "v mod 256 + 256 * (v div 256 + 256) = v + 65536" using dm by simp
    then show ?thesis using False r by (simp add: unpack_int16_def lo hi h Let_def) 
  qed
qed

lemma unpack_pairs_length: "length (unpack_pairs raw) = length raw div 2"
  by (induction raw rule: unpack_pairs.induct) simp_all

lemma unpack_pairs_nth:
  "2 * i + 1 < length raw \<Longrightarrow> unpack_pairs raw ! i = sample_at raw i"
proof (induction raw arbitrary: i rule: unpack_pairs.induct)
  case (1 lo hi rest)
  show ?case
  proof (cases i)
    case 0
    then show ?thesis by (simp add: sample_at_def)
  next
    case (Suc j)
    with "1.prems" have "2 * j + 1 < length rest" by simp
    from "1.IH" [OF this] Suc show ?thesis by (simp add: sample_at_def)
  qed
qed simp_all

lemma add_samples_ok:
  "i + length samples \<le> length mixed \<Longrightarrow>
   \<exists>r. add_samples i samples gain mixed = Inr r \<and> length r = length mixed \<and>
       (\<forall>j<length mixed. r ! j =
          (if i \<le> j \<and> j < i + length samples
           then mixed ! j + py_int (fl (of_int (samples ! (j - i)) * gain)) else mixed ! j))"
proof (induction samples arbitrary: i mixed)
  case Nil
  then show ?case by simp
next
  case (Cons s samples)
  let ?m = "mixed[i := mixed ! i + py_int (fl (of_int s * gain))]"
  from Cons.prems have i: "i < length mixed" and le: "Suc i + length samples \<le> length ?m"
    by simp_all
  from Cons.IH [OF le] obtain r where
    r: "add_samples (Suc i) samples gain ?m = Inr r" "length r = length ?m"
    and nth: "\<forall>j<length ?m. r ! j =
          (if Suc i \<le> j \<and> j < Suc i + length samples
           then ?m ! j + py_int (fl (of_int (samples ! (j - Suc i)) * gain)) else ?m ! j)"
    by blast
  have "\<forall>j<length mixed. r ! j =
          (if i \<le> j \<and> j < i + length (s # samples)
           then mixed ! j + py_int (fl (of_int ((s # samples) ! (j - i)) * gain)) else mixed ! j)"
  proof (intro allI impI)
    fix j assume j: "j < length mixed"
    show "r ! j = (if i \<le> j \<and> j < i + length (s # samples)
           then mixed ! j + py_int (fl (of_int ((s # samples) ! (j - i)) * gain)) else mixed ! j)"
    proof (cases "j = i")
      case True
      then show ?thesis using nth j i by simp
    next
      case False
      then show ?thesis using nth j i by (auto simp: nth_Cons' Suc_diff_Suc)
    qed
  qed
  with r i show ?case by simp
qed

lemma mix_loop_ok:
  assumes "list_all (\<lambda>(stream, gain). frame_sized (io stream)) handles"
    and "length mixed = CHUNK_SIZE"
  shows "\<exists>r. mix_loop io handles mixed = Inr r \<and> length r = CHUNK_SIZE \<and>
           (\<forall>i<CHUNK_SIZE. r ! i = mixed ! i + mixed_sum io handles i)"
  using assms
proof (induction handles arbitrary: mixed)
  case Nil
  then show ?case by (simp add: mixed_sum_def)
next
  case (Cons p handles)
  obtain stream gain where p: "p = (stream, gain)" by (cases p)
  from Cons.prems have rest: "list_all (\<lambda>(stream, gain). frame_sized (io stream)) handles"
    and sized: "frame_sized (io stream)" by (simp_all add: p)
  show ?case
  proof (cases "io stream")
    case (Frame raw)
    with sized have len: "length raw = CHUNK_SIZE * BYTES_PER_SAMPLE"
      by (simp add: frame_sized_def)
    then have un: "struct_unpack raw = Inr (unpack_pairs raw)" by (simp add: struct_unpack_def)
    have lu: "length (unpack_pairs raw) = CHUNK_SIZE"
      using len by (simp add: unpack_pairs_length BYTES_PER_SAMPLE_def)
    then have "0 + length (unpack_pairs raw) \<le> length mixed" using Cons.prems(2) by simp
    from add_samples_ok [OF this, of gain] obtain m' where
      m': "add_samples 0 (unpack_pairs raw) gain mixed = Inr m'" "length m' = length mixed"
      and nth: "\<forall>j<length mixed. m' ! j =
          (if 0 \<le> j \<and> j < 0 + length (unpack_pairs raw)
           then mixed ! j + py_int (fl (of_int (unpack_pairs raw ! (j - 0)) * gain)) else mixed ! j)"
      by blast
    have lm': "length m' = CHUNK_SIZE" using m'(2) Cons.prems(2) by simp
    from Cons.IH [OF rest lm'] obtain r where
      r: "mix_loop io handles m' = Inr r" "length r = CHUNK_SIZE"
      and rn: "\<forall>i<CHUNK_SIZE. r ! i = m' ! i + mixed_sum io handles i" by blast
    have "\<forall>i<CHUNK_SIZE. r ! i = mixed ! i + mixed_sum io (p # handles) i"
    proof (intro allI impI)
      fix i assume i: "i < CHUNK_SIZE"
      then have "2 * i + 1 < length raw" using len by (simp add: BYTES_PER_SAMPLE_def)
      from unpack_pairs_nth [OF this] have "unpack_pairs raw ! i = sample_at raw i" .
      moreover have "m' ! i = mixed ! i + py_int (fl (of_int (unpack_pairs raw ! i) * gain))"
        using nth i lu Cons.prems(2) by simp
      ultimately show "r ! i = mixed ! i + mixed_sum io (p # handles) i"
        using rn i by (simp add: mixed_sum_def p contribution_def Frame)
    qed
    with r m' un Frame show ?thesis by (simp add: p)
  next
    case IsActiveError
    from Cons.IH [OF rest Cons.prems(2)] IsActiveError show ?thesis
      by (simp add: p mixed_sum_def contribution_def)
  next
    case Inactive
    from Cons.IH [OF rest Cons.prems(2)] Inactive show ?thesis
      by (simp add: p mixed_sum_def contribution_def)
  next
    case ReadError
    from Cons.IH [OF rest Cons.prems(2)] ReadError show ?thesis
      by (simp add: p mixed_sum_def contribution_def)
  qed
qed

lemma int16_range_clamp16: "int16_range (clamp16 v)"
  by (simp add: int16_range_def clamp16_def)

lemma read_and_mix_eq:
  assumes "streams eng \<noteq> []"
    and "list_all (\<lambda>(stream, gain). frame_sized (io stream)) (streams eng)"
  shows "read_and_mix io eng =
           Inr (concat (map (\<lambda>i. pack_int16 (clamp16 (mixed_sum io (streams eng) i)))
                  [0..<CHUNK_SIZE]))"
proof -
  from mix_loop_ok [OF assms(2), of "replicate CHUNK_SIZE 0"] obtain r where
    r: "mix_loop io (streams eng) (replicate CHUNK_SIZE 0) = Inr r" "length r = CHUNK_SIZE"
    and rn: "\<forall>i<CHUNK_SIZE. r ! i = replicate CHUNK_SIZE 0 ! i + mixed_sum io (streams eng) i"
    by auto
  have "r = map (mixed_sum io (streams eng)) [0..<CHUNK_SIZE]"
    using r(2) rn by (intro nth_equalityI) simp_all
  then have "map clamp16 r = map (\<lambda>i. clamp16 (mixed_sum io (streams eng) i)) [0..<CHUNK_SIZE]"
    by simp
  moreover have "list_all int16_range (map clamp16 r)"
    by (simp add: list_all_iff int16_range_clamp16)
  ultimately show ?thesis
    using assms(1) r by (simp add: read_and_mix_def struct_pack_def comp_def)
qed

lemma packed_length: "length (concat (map (\<lambda>i. pack_int16 (f i)) [0..<n])) = 2 * n"
  by (induction n) (simp_all add: pack_int16_def)

lemma sample_at_packed:
  assumes "i < n" and "int16_range (f i)"
  shows "sample_at (concat (map (\<lambda>i. pack_int16 (f i)) [0..<n])) i = f i"
  using assms
proof (induction n)
  case 0
  then show ?case by simp
next
  case (Suc n)
  define front where "front = concat (map (\<lambda>i. pack_int16 (f i)) [0..<n])"
  have len: "length front = 2 * n" by (simp add: front_def packed_length)
  have whole: "concat (map (\<lambda>i. pack_int16 (f i)) [0..<Suc n]) = front @ pack_int16 (f n)"
    by (simp add: front_def)
  show ?case
  proof (cases "i < n")
    case True
    with Suc.IH Suc.prems(2) have "sample_at front i = f i"
      by (simp add: front_def)
    then show ?thesis unfolding whole using True by (simp add: sample_at_def nth_append len)
  next
    case False
    with Suc.prems have "i = n" by simp
    then show ?thesis
      unfolding whole
      using unpack_pack_int16 [OF Suc.prems(2)]
      by (simp add: sample_at_def nth_append len pack_int16_def)
  qed
qed

lemma repack_frame:
  "length raw = 2 * n \<Longrightarrow> concat (map (\<lambda>i. pack_int16 (sample_at raw i)) [0..<n]) = raw"
proof (induction n arbitrary: raw)
  case 0
  then show ?case by simp
next
  case (Suc n)
  define front where "front = take (2 * n) raw"
  have fl: "length front = 2 * n" using Suc.prems by (simp add: front_def)
  have fn: "\<And>i. i < 2 * n \<Longrightarrow> front ! i = raw ! i" by (simp add: front_def)
  have raw: "raw = front @ [raw ! (2 * n), raw ! (2 * n + 1)]"
  proof (rule nth_equalityI)
    show "length raw = length (front @ [raw ! (2 * n), raw ! (2 * n + 1)])"
      using Suc.prems fl by simp
  next
    fix i assume "i < length raw"
    then have "i < 2 * n \<or> i = 2 * n \<or> i = 2 * n + 1" using Suc.prems by auto
    then show "raw ! i = (front @ [raw ! (2 * n), raw ! (2 * n + 1)]) ! i"
      using fn by (auto simp: nth_append fl)
  qed
  have "\<And>i. i < n \<Longrightarrow> sample_at raw i = sample_at front i"
    by (simp add: sample_at_def fn)
  then have "map (\<lambda>i. pack_int16 (sample_at raw i)) [0..<n] = map (\<lambda>i. pack_int16 (sample_at front i)) [0..<n]"
    by simp
  then have "concat (map (\<lambda>i. pack_int16 (sample_at raw i)) [0..<n]) = front"
    using Suc.IH [OF fl] by (simp only:)
  then have "concat (map (\<lambda>i. pack_int16 (sample_at raw i)) [0..<Suc n])
      = front @ pack_int16 (sample_at raw n)" by simp
  also have "pack_int16 (sample_at raw n) = [raw ! (2 * n), raw ! (2 * n + 1)]"
    by (simp add: sample_at_def pack_unpack_int16)
  finally show ?case using raw by simp
qed

subsection \<open>Whitespace\<close>

lemma strip_blank: "list_all isspace s \<Longrightarrow> strip s = []"
proof -
  assume "list_all isspace s"
  then have h: "dropWhile isspace s = []" by (simp add: list_all_iff)
  show ?thesis unfolding strip_def h by simp
qed

lemma strip_empty_blank: "strip s = [] \<Longrightarrow> list_all isspace s"
proof -
  assume "strip s = []"
  then have all: "\<forall>x\<in>set (dropWhile isspace s). isspace x"
    by (simp add: strip_def)
  have "dropWhile isspace s = []"
  proof (rule ccontr)
    assume ne: "dropWhile isspace s \<noteq> []"
    then have "\<not> isspace (hd (dropWhile isspace s))" by (rule hd_dropWhile)
    moreover have "hd (dropWhile isspace s) \<in> set (dropWhile isspace s)" using ne by simp
    ultimately show False using all by blast
  qed
  then show ?thesis by (simp add: list_all_iff)
qed

subsection \<open>Frames, engine and recognizer\<close>

lemma const_frame_length: "length (const_frame lo hi) = CHUNK_SIZE * BYTES_PER_SAMPLE"
  by (simp add: const_frame_def length_concat sum_list_replicate BYTES_PER_SAMPLE_def)

lemma concat_replicate_pair_nth:
  "i < n \<Longrightarrow> concat (replicate n [a, b]) ! (2 * i) = a \<and> concat (replicate n [a, b]) ! (2 * i + 1) = b"
proof (induction n arbitrary: i)
  case 0
  then show ?case by simp
next
  case (Suc n)
  show ?case
  proof (cases i)
    case 0
    then show ?thesis by simp
  next
    case (Suc j)
    with Suc.prems have "j < n" by simp
    from Suc.IH [OF this] Suc show ?thesis by simp
  qed
qed

lemma sample_at_const_frame:
  "i < CHUNK_SIZE \<Longrightarrow> sample_at (const_frame lo hi) i = unpack_int16 lo hi"
  using concat_replicate_pair_nth [of i CHUNK_SIZE lo hi]
  by (simp add: sample_at_def const_frame_def)

lemma const_samples_packed:
  assumes "\<forall>i<CHUNK_SIZE. f i = c"
  shows "concat (map (\<lambda>i. pack_int16 (f i)) [0..<CHUNK_SIZE])
           = const_frame (word_of_int c) (word_of_int (c div 256))"
proof -
  have "map (\<lambda>i. pack_int16 (f i)) [0..<CHUNK_SIZE] = map (\<lambda>i. pack_int16 c) [0..<CHUNK_SIZE]"
    using assms by simp
  also have "\<dots> = replicate CHUNK_SIZE (pack_int16 c)"
    by (simp add: map_replicate_const)
  finally show ?thesis by (simp add: const_frame_def pack_int16_def)
qed

lemma floor_rat_numeral:
  "\<lfloor>numeral a / numeral b :: rat\<rfloor> = numeral a div numeral b"
  using floor_divide_of_int_eq [of "numeral a" "numeral b", where ?'a = rat] by simp

lemma fl_dyadic: "\<bar>m\<bar> < 2 ^ 53 \<Longrightarrow> fl (of_int m / 2 ^ k) = of_int m / 2 ^ k"
  using fl_repr [of m "- int k"] by (simp add: power_int_minus field_simps)

lemma int16_small: "int16_range s \<Longrightarrow> \<bar>s\<bar> < 2 ^ 53"
  by (auto simp: int16_range_def)

lemma unity_gain_sample: "int16_range s \<Longrightarrow> py_int (fl (of_int s * 1)) = s"
  by (simp add: fl_of_int [OF int16_small] py_int_of_int)

lemma clamp16_id: "int16_range s \<Longrightarrow> clamp16 s = s"
  by (simp add: int16_range_def clamp16_def)

lemma sample_at_range: "int16_range (sample_at raw i)"
  by (simp add: sample_at_def unpack_int16_range)

lemma silent_frame: "const_frame 0 0 = replicate (CHUNK_SIZE * BYTES_PER_SAMPLE) 0"
proof -
  have "concat (replicate n [0, 0 :: byte]) = replicate (n * 2) 0" for n
    by (induction n) simp_all
  then show ?thesis by (simp add: const_frame_def BYTES_PER_SAMPLE_def)
qed

lemma mixed_sum_silent:
  "list_all (\<lambda>(stream, gain). \<not> delivers (io stream)) handles \<Longrightarrow> mixed_sum io handles i = 0"
  by (induction handles) (auto simp: mixed_sum_def contribution_def delivers_def split: stream_cycle.splits)

lemma silent_sized:
  "list_all (\<lambda>(stream, gain). \<not> delivers (io stream)) handles \<Longrightarrow>
   list_all (\<lambda>(stream, gain). frame_sized (io stream)) handles"
  by (induction handles) (auto simp: frame_sized_def delivers_def split: stream_cycle.splits)

lemma read_and_mix_silent:
  assumes "streams eng \<noteq> []"
    and "list_all (\<lambda>(stream, gain). \<not> delivers (io stream)) (streams eng)"
  shows "read_and_mix io eng = Inr (replicate (CHUNK_SIZE * BYTES_PER_SAMPLE) 0)"
proof -
  have m: "\<forall>i<CHUNK_SIZE. clamp16 (mixed_sum io (streams eng) i) = 0"
    by (simp add: mixed_sum_silent [OF assms(2)] clamp16_def)
  show ?thesis
    unfolding read_and_mix_eq [OF assms(1) silent_sized [OF assms(2)]] const_samples_packed [OF m]
    using silent_frame by simp
qed

lemma capture_cycle_feeds:
  "read_and_mix io eng = Inr out \<Longrightarrow> out \<noteq> [] \<Longrightarrow>
   capture_loop [Capture io r] eng tr =
     (None, tr\<lparr>fed := fed tr @ [out], emitted := emitted tr @ cycle_events (process_chunk r)\<rparr>)"
  by simp

lemma open_loop_none_opened:
  "list_all (\<lambda>src. \<not> get_enabled src \<or> open_fails env src) sources \<Longrightarrow>
   fst (open_loop env sources eng) = None \<and> streams (snd (open_loop env sources eng)) = streams eng"
proof (induction sources arbitrary: eng)
  case Nil
  then show ?case by simp
next
  case (Cons src sources)
  then have rest: "list_all (\<lambda>src. \<not> get_enabled src \<or> open_fails env src) sources"
    and this_one: "\<not> get_enabled src \<or> open_fails env src" by simp_all
  show ?case
  proof (cases "get_enabled src")
    case False
    then show ?thesis using Cons.IH [OF rest, of eng] by simp
  next
    case True
    with this_one obtain d where d: "src_device_index src = Some d" "\<not> open_ok env d"
      by (auto simp: open_fails_def split: option.splits)
    then show ?thesis
      using True Cons.IH [OF rest, of "eng\<lparr>calls := calls eng @ [Open d]\<rparr>"] by simp
  qed
qed

subsection \<open>Handles and progress values\<close>

lemma probed_append: "probed_streams (xs @ ys) = probed_streams xs @ probed_streams ys"
  by (induction xs rule: probed_streams.induct) simp_all

lemma closed_append: "closed_streams (xs @ ys) = closed_streams xs @ closed_streams ys"
  by (induction xs rule: closed_streams.induct) simp_all

lemma close_loop_probes: "probed_streams (close_loop env handles) = map fst handles"
  by (induction handles) (auto simp: probed_append split: option.splits bool.splits)

lemma close_loop_closes:
  "closed_streams (close_loop env handles) = filter (closable env) (map fst handles)"
proof (induction handles)
  case Nil
  then show ?case by simp
next
  case (Cons p handles)
  obtain s g where p: "p = (s, g)" by (cases p)
  show ?case
  proof (cases "is_active env s")
    case None
    then have "\<not> closable env s" by (simp add: closable_def)
    then show ?thesis using None Cons.IH by (simp add: p closed_append)
  next
    case (Some b)
    then have "closable env s = (if b then stop_ok env s else True)"
      by (simp add: closable_def)
    then show ?thesis using Some Cons.IH by (cases b) (simp_all add: p closed_append)
  qed
qed

lemma zip_upt_Cons:
  "zip [n..<Suc (n + k)] (g # gs) = (n, g) # zip [Suc n..<Suc (n + k)] gs"
  by (simp add: upt_conv_Cons del: upt_Suc)

lemma close_loop_no_open: "filter is_open_call (close_loop env handles) = []"
  by (induction handles) (auto split: option.splits bool.splits)

lemma open_loop_effect:
  "calls (snd (open_loop env sources eng)) = calls eng @ map Open (attempted sources) \<and>
   streams (snd (open_loop env sources eng)) =
     streams eng @ zip [next_stream eng..<next_stream eng + length (opened_gains env sources)]
                       (opened_gains env sources) \<and>
   next_stream (snd (open_loop env sources eng)) =
     next_stream eng + length (opened_gains env sources)"
proof (induction sources arbitrary: eng)
  case Nil
  then show ?case by simp
next
  case (Cons src sources)
  show ?case
  proof (cases "get_enabled src")
    case False
    then show ?thesis using Cons.IH [of eng] by simp
  next
    case True
    show ?thesis
    proof (cases "src_device_index src")
      case None
      then show ?thesis using True by simp
    next
      case (Some d)
      show ?thesis
      proof (cases "open_ok env d")
        case False
        then show ?thesis
          using True Some Cons.IH [of "eng\<lparr>calls := calls eng @ [Open d]\<rparr>"] by simp
      next
        case ok: True
        let ?e = "eng\<lparr>calls := calls eng @ [Open d],
                      streams := streams eng @ [(next_stream eng, get_gain src)],
                      next_stream := Suc (next_stream eng)\<rparr>"
        have step: "open_loop env (src # sources) eng = open_loop env sources ?e"
          using True Some ok by (simp add: Let_def)
        show ?thesis
          unfolding step using Cons.IH [of ?e] True Some ok
          by (simp add: zip_upt_Cons del: upt_Suc)
      qed
    qed
  qed
qed

lemma opened_gains_bound: "length (opened_gains env sources) \<le> length (filter get_enabled sources)"
  by (induction sources) (auto split: option.splits)

lemma open_streams_snd:
  "snd (open_streams env sources eng) = snd (open_loop env sources (close_streams env eng))"
  by (cases "open_loop env sources (close_streams env eng)")
    (auto simp: open_streams_def split: option.splits)

lemma fl_one: "fl 1 = 1"
  using fl_of_int [of 1] by simp

lemma fl_hundred: "fl 100 = 100"
  using fl_of_int [of 100] by simp

lemma py_int_nonneg: "0 \<le> x \<Longrightarrow> 0 \<le> py_int x"
  by (simp add: py_int_def)

lemma progress_pct_mono:
  assumes "a \<le> b"
  shows "progress_pct a t \<le> progress_pct b t"
proof -
  have q: "(of_nat a :: rat) / of_nat t \<le> of_nat b / of_nat t"
    using assms by (simp add: divide_right_mono)
  have q0: "0 \<le> (of_nat a :: rat) / of_nat t" by simp
  have "fl (of_nat a / of_nat t) \<le> fl (of_nat b / of_nat t)"
    by (rule fl_mono_nonneg [OF q0 q])
  then have "fl (of_nat a / of_nat t) * 100 \<le> fl (of_nat b / of_nat t) * 100" by simp
  moreover have "0 \<le> fl (of_nat a / of_nat t) * 100" using fl_nonneg [OF q0] by simp
  ultimately have "fl (fl (of_nat a / of_nat t) * 100) \<le> fl (fl (of_nat b / of_nat t) * 100)"
    by (rule fl_mono_nonneg [rotated])
  then have "py_int (fl (fl (of_nat a / of_nat t) * 100)) \<le> py_int (fl (fl (of_nat b / of_nat t) * 100))"
    by (rule py_int_mono)
  then show ?thesis by (simp add: progress_pct_def)
qed

lemma progress_pct_bounds: "0 \<le> progress_pct a t \<and> progress_pct a t \<le> 100"
proof -
  have q0: "0 \<le> (of_nat a :: rat) / of_nat t" by simp
  have "0 \<le> fl (of_nat a / of_nat t) * 100" using fl_nonneg [OF q0] by simp
  from py_int_nonneg [OF fl_nonneg [OF this]] show ?thesis by (simp add: progress_pct_def)
qed

lemma progress_pct_full:
  assumes "0 < t" and "t \<le> a"
  shows "progress_pct a t = 100"
proof -
  have "(1::rat) \<le> of_nat a / of_nat t" using assms by simp
  from fl_mono_nonneg [OF _ this] have "1 \<le> fl (of_nat a / of_nat t)" by (simp add: fl_one)
  then have "100 \<le> fl (of_nat a / of_nat t) * 100" by simp
  from fl_mono_nonneg [OF _ this] have "100 \<le> fl (fl (of_nat a / of_nat t) * 100)"
    by (simp add: fl_hundred)
  from py_int_mono [OF this] have "100 \<le> py_int (fl (fl (of_nat a / of_nat t) * 100))"
    using py_int_of_int [of 100] by simp
  then show ?thesis by (simp add: progress_pct_def)
qed

lemma progress_pct_partial:
  assumes "a < t" and "t < 2 ^ 32"
  shows "progress_pct a t \<le> 99"
proof -
  let ?c = "(4294967295 :: rat) / 2 ^ 32"
  have t: "(0::rat) < of_nat t" using assms(1) by simp
  have "of_nat a + (1::rat) \<le> of_nat t"
  proof -
    have "Suc a \<le> t" using assms(1) by simp
    then have "(of_nat (Suc a) :: rat) \<le> of_nat t" by (simp only: of_nat_le_iff)
    then show ?thesis by simp
  qed
  moreover have "(of_nat t :: rat) \<le> 4294967295"
  proof -
    have "t \<le> 4294967295" using assms(2) by simp
    then show ?thesis by (metis of_nat_le_iff of_nat_numeral)
  qed
  ultimately have "(of_nat a :: rat) * 2 ^ 32 \<le> 4294967295 * of_nat t" by (simp add: algebra_simps)
  then have q: "(of_nat a :: rat) / of_nat t \<le> ?c"
    using t by (simp add: field_simps)
  have q0: "0 \<le> (of_nat a :: rat) / of_nat t" by simp
  have c: "fl ?c = ?c" using fl_dyadic [of 4294967295 32] by simp
  have f1: "fl (of_nat a / of_nat t) \<le> ?c" using fl_mono_nonneg [OF q0 q] by (simp only: c)
  then have "fl (of_nat a / of_nat t) * 100 \<le> 429496729500 / 2 ^ 32" by simp
  moreover have "0 \<le> fl (of_nat a / of_nat t) * 100" using fl_nonneg [OF q0] by simp
  ultimately have "fl (fl (of_nat a / of_nat t) * 100) \<le> fl (429496729500 / 2 ^ 32)"
    by (rule fl_mono_nonneg [rotated])
  also have "fl (429496729500 / 2 ^ 32) = 429496729500 / 2 ^ 32"
    using fl_dyadic [of 429496729500 32] by simp
  finally have "py_int (fl (fl (of_nat a / of_nat t) * 100)) \<le> py_int (429496729500 / 2 ^ 32)"
    by (rule py_int_mono)
  also have "py_int (429496729500 / 2 ^ 32) = 99"
    by (simp add: py_int_def floor_rat_numeral)
  finally show ?thesis by (simp add: progress_pct_def)
qed

lemma progress_pct_half: "progress_pct 4000 8000 = 50"
proof -
  have h: "fl (1 / 2) = 1 / 2" using fl_dyadic [of 1 1] by simp
  have f: "fl 50 = 50" using fl_of_int [of 50] by simp
  have "fl (fl (1 / 2) * 100) = 50" unfolding h using f by simp
  then show ?thesis using py_int_of_int [of 50] by (simp add: progress_pct_def)
qed

subsection \<open>The chunk loop and the batch run\<close>

lemma progress_values_append:
  "progress_values (xs @ ys) = progress_values xs @ progress_values ys"
  by (induction xs rule: progress_values.induct) simp_all

lemma filter_terminal_text_events: "filter terminal (text_events f) = []"
  by (simp add: text_events_def Let_def)

lemma progress_values_text_events: "progress_values (text_events f) = []"
  by (simp add: text_events_def Let_def)

lemma chunk_texts_plain:
  "progress_values (chunk_texts env n) = [] \<and> filter terminal (chunk_texts env n) = []"
  by (simp add: chunk_texts_def progress_values_text_events filter_terminal_text_events
      split: reply.splits)

lemma not_halts:
  "\<not> halts env n \<longleftrightarrow>
     \<not> is_cancelled env (Suc n) \<and> read_failure env n = None \<and> accept_failure env n = None"
  by (auto simp: halts_def split: option.splits)

lemma chunk_loop_cancel:
  "is_cancelled env (Suc n) \<Longrightarrow>
   chunk_loop env t n remaining fp last_pct = (Cancelled, fp, [])"
  by (simp add: chunk_loop.simps)

lemma chunk_loop_read_raises:
  "\<not> is_cancelled env (Suc n) \<Longrightarrow> read_failure env n = Some m \<Longrightarrow>
   chunk_loop env t n remaining fp last_pct = (Raised m, fp, [])"
  by (simp add: chunk_loop.simps)

lemma chunk_loop_done:
  "\<not> is_cancelled env (Suc n) \<Longrightarrow> read_failure env n = None \<Longrightarrow>
   chunk_loop env t n 0 fp last_pct = (Exhausted, fp, [])"
  by (simp add: chunk_loop.simps)

lemma chunk_loop_accept_raises:
  "\<not> is_cancelled env (Suc n) \<Longrightarrow> read_failure env n = None \<Longrightarrow> remaining \<noteq> 0 \<Longrightarrow>
   accept_failure env n = Some m \<Longrightarrow>
   chunk_loop env t n remaining fp last_pct = (Raised m, fp + CHUNK_FRAMES, [])"
  by (simp add: chunk_loop.simps Let_def)

lemma chunk_loop_step:
  assumes "\<not> halts env n" and "remaining \<noteq> 0"
  shows "chunk_loop env t n remaining fp last_pct =
           (case chunk_loop env t (Suc n) (remaining - CHUNK_FRAMES) (fp + CHUNK_FRAMES)
                   (progress_pct (fp + CHUNK_FRAMES) t) of
              (exit, fp', evs) \<Rightarrow>
                (exit, fp',
                 chunk_texts env n @ chunk_progress (fp + CHUNK_FRAMES) t last_pct @ evs))"
  using assms unfolding not_halts
  by (subst chunk_loop.simps) (simp add: Let_def chunk_texts_def chunk_progress_def)

lemma chunk_loop_step_proj:
  assumes "\<not> halts env n" and "remaining \<noteq> 0"
  shows "fst (chunk_loop env t n remaining fp last_pct) =
           fst (chunk_loop env t (Suc n) (remaining - CHUNK_FRAMES) (fp + CHUNK_FRAMES)
                  (progress_pct (fp + CHUNK_FRAMES) t))"
    and "fst (snd (chunk_loop env t n remaining fp last_pct)) =
           fst (snd (chunk_loop env t (Suc n) (remaining - CHUNK_FRAMES) (fp + CHUNK_FRAMES)
                  (progress_pct (fp + CHUNK_FRAMES) t)))"
    and "snd (snd (chunk_loop env t n remaining fp last_pct)) =
           chunk_texts env n @ chunk_progress (fp + CHUNK_FRAMES) t last_pct @
           snd (snd (chunk_loop env t (Suc n) (remaining - CHUNK_FRAMES) (fp + CHUNK_FRAMES)
                  (progress_pct (fp + CHUNK_FRAMES) t)))"
  unfolding chunk_loop_step [OF assms]
  by (cases "chunk_loop env t (Suc n) (remaining - CHUNK_FRAMES) (fp + CHUNK_FRAMES)
                  (progress_pct (fp + CHUNK_FRAMES) t)"; simp)+

lemma chunk_loop_halt:
  assumes "halts env n \<or> remaining = 0"
  shows "snd (snd (chunk_loop env t n remaining fp last_pct)) = []"
    and "fst (chunk_loop env t n remaining fp last_pct) =
           (if halts env n \<and> remaining \<noteq> 0 then halt_exit env n else end_exit env n)"
proof -
  show "snd (snd (chunk_loop env t n remaining fp last_pct)) = []"
    using assms
    by (subst chunk_loop.simps) (auto simp: halts_def Let_def split: option.splits)
  show "fst (chunk_loop env t n remaining fp last_pct) =
           (if halts env n \<and> remaining \<noteq> 0 then halt_exit env n else end_exit env n)"
    using assms
    by (subst chunk_loop.simps)
      (auto simp: halts_def halt_exit_def end_exit_def Let_def split: option.splits)
qed

lemma chunk_loop_cases_induct [case_names step]:
  assumes "\<And>env t n remaining fp last_pct.
     (\<not> halts env n \<Longrightarrow> remaining \<noteq> 0 \<Longrightarrow>
        P env t (Suc n) (remaining - CHUNK_FRAMES) (fp + CHUNK_FRAMES)
          (progress_pct (fp + CHUNK_FRAMES) t)) \<Longrightarrow>
     P env t n remaining fp last_pct"
  shows "P env t n remaining fp last_pct"
proof (induction env t n remaining fp last_pct rule: chunk_loop.induct)
  case (1 env t n remaining fp last_pct)
  show ?case
  proof (rule assms)
    assume h: "\<not> halts env n" and r: "remaining \<noteq> 0"
    from h have a: "\<not> is_cancelled env (Suc n)" "read_failure env n = None"
      "accept_failure env n = None" by (simp_all add: not_halts)
    from "1.IH" [OF a(1) a(2) r refl a(3) refl refl refl]
    show "P env t (Suc n) (remaining - CHUNK_FRAMES) (fp + CHUNK_FRAMES)
          (progress_pct (fp + CHUNK_FRAMES) t)" .
  qed
qed

lemma chunk_count_0: "chunk_count 0 = 0"
  by (simp add: chunk_count_def CHUNK_FRAMES_def)

lemma chunk_count_step:
  "remaining \<noteq> 0 \<Longrightarrow> chunk_count remaining = Suc (chunk_count (remaining - CHUNK_FRAMES))"
  unfolding chunk_count_def CHUNK_FRAMES_def by (cases "remaining < 4000") simp_all

lemma done_from_halt: "halts env n \<or> remaining = 0 \<Longrightarrow> done_from env n remaining = 0"
  by (cases "remaining = 0")
    (auto simp: done_from_def chunk_count_0 chunk_count_step upt_conv_Cons simp del: upt_Suc)

lemma exit_from_halt:
  "halts env n \<or> remaining = 0 \<Longrightarrow>
   exit_from env n remaining =
     (if halts env n \<and> remaining \<noteq> 0 then halt_exit env n else end_exit env n)"
  by (cases "remaining = 0")
    (auto simp: exit_from_def chunk_count_0 chunk_count_step upt_conv_Cons simp del: upt_Suc)

lemma find_upt_ge: "find P [a..<b] = Some j \<Longrightarrow> a \<le> j"
proof -
  assume "find P [a..<b] = Some j"
  then have "j \<in> set [a..<b]" by (auto simp: find_Some_iff)
  then show ?thesis by simp
qed

lemma done_from_step:
  assumes "\<not> halts env n" and "remaining \<noteq> 0"
  shows "done_from env n remaining = Suc (done_from env (Suc n) (remaining - CHUNK_FRAMES))"
proof -
  let ?c = "chunk_count (remaining - CHUNK_FRAMES)"
  have l: "[n..<n + Suc ?c] = n # [Suc n..<Suc n + ?c]" by (simp add: upt_conv_Cons del: upt_Suc)
  show ?thesis
  proof (cases "find (halts env) [Suc n..<Suc n + ?c]")
    case None
    then show ?thesis
      using assms unfolding done_from_def chunk_count_step [OF assms(2)] l
      by (simp del: upt_Suc)
  next
    case (Some j)
    from find_upt_ge [OF this] have "j - n = Suc (j - Suc n)" by simp
    then show ?thesis
      using assms Some unfolding done_from_def chunk_count_step [OF assms(2)] l
      by (simp del: upt_Suc)
  qed
qed

lemma exit_from_step:
  assumes "\<not> halts env n" and "remaining \<noteq> 0"
  shows "exit_from env n remaining = exit_from env (Suc n) (remaining - CHUNK_FRAMES)"
proof -
  let ?c = "chunk_count (remaining - CHUNK_FRAMES)"
  have l: "[n..<n + Suc ?c] = n # [Suc n..<Suc n + ?c]" by (simp add: upt_conv_Cons del: upt_Suc)
  show ?thesis
    using assms unfolding exit_from_def chunk_count_step [OF assms(2)] l
    by (simp del: upt_Suc split: option.splits)
qed

lemma chunk_loop_exit:
  "fst (chunk_loop env t n remaining fp last_pct) = exit_from env n remaining"
proof (induction env t n remaining fp last_pct rule: chunk_loop_cases_induct)
  case (step env t n remaining fp last_pct)
  show ?case
  proof (cases "halts env n \<or> remaining = 0")
    case True
    then show ?thesis by (simp only: chunk_loop_halt(2) [OF True] exit_from_halt [OF True])
  next
    case False
    then have h: "\<not> halts env n" and r: "remaining \<noteq> 0" by simp_all
    show ?thesis
      using step [OF h r] by (simp add: chunk_loop_step_proj [OF h r] exit_from_step [OF h r])
  qed
qed

lemma remdups_adj_head: "remdups_adj (x # xs) = x # tl (remdups_adj (x # xs))"
  by (cases xs) (auto simp: remdups_adj_Cons split: list.splits)

lemma pct_list_step:
  "map (\<lambda>j. f (fp + CHUNK_FRAMES * j)) [1..<Suc (Suc d)] =
     f (fp + CHUNK_FRAMES) # map (\<lambda>j. f (fp + CHUNK_FRAMES + CHUNK_FRAMES * j)) [1..<Suc d]"
proof -
  have "[1..<Suc (Suc d)] = 1 # map Suc [1..<Suc d]"
    by (simp add: upt_conv_Cons map_Suc_upt del: upt_Suc)
  then show ?thesis by (simp add: comp_def add.assoc del: upt_Suc)
qed

lemma chunk_loop_progress:
  "progress_values (snd (snd (chunk_loop env t n remaining fp last_pct))) =
     tl (remdups_adj (last_pct #
            map (\<lambda>j. progress_pct (fp + CHUNK_FRAMES * j) t) [1..<Suc (done_from env n remaining)]))"
proof (induction env t n remaining fp last_pct rule: chunk_loop_cases_induct)
  case (step env t n remaining fp last_pct)
  show ?case
  proof (cases "halts env n \<or> remaining = 0")
    case True
    then show ?thesis by (simp add: chunk_loop_halt(1) [OF True] done_from_halt [OF True])
  next
    case False
    then have h: "\<not> halts env n" and r: "remaining \<noteq> 0" by simp_all
    let ?pct = "progress_pct (fp + CHUNK_FRAMES) t"
    let ?rest = "map (\<lambda>j. progress_pct (fp + CHUNK_FRAMES + CHUNK_FRAMES * j) t)
                   [1..<Suc (done_from env (Suc n) (remaining - CHUNK_FRAMES))]"
    have ih: "progress_values (snd (snd (chunk_loop env t (Suc n) (remaining - CHUNK_FRAMES)
                (fp + CHUNK_FRAMES) ?pct))) = tl (remdups_adj (?pct # ?rest))"
      by (rule step [OF h r])
    have l: "map (\<lambda>j. progress_pct (fp + CHUNK_FRAMES * j) t) [1..<Suc (done_from env n remaining)]
               = ?pct # ?rest"
      unfolding done_from_step [OF h r] by (rule pct_list_step)
    have "progress_values (snd (snd (chunk_loop env t n remaining fp last_pct))) =
            progress_values (chunk_progress (fp + CHUNK_FRAMES) t last_pct) @ tl (remdups_adj (?pct # ?rest))"
      by (simp add: chunk_loop_step_proj [OF h r] progress_values_append chunk_texts_plain ih)
    also have "\<dots> = tl (remdups_adj (last_pct # ?pct # ?rest))"
    proof (cases "?pct = last_pct")
      case True
      then show ?thesis by (simp add: chunk_progress_def)
    next
      case False
      then have "remdups_adj (last_pct # ?pct # ?rest) = last_pct # remdups_adj (?pct # ?rest)"
        by simp
      then show ?thesis
        using False remdups_adj_head [of ?pct ?rest] by (simp add: chunk_progress_def)
    qed
    finally show ?thesis unfolding l .
  qed
qed

lemma chunk_loop_no_terminal:
  "filter terminal (snd (snd (chunk_loop env t n remaining fp last_pct))) = []"
proof (induction env t n remaining fp last_pct rule: chunk_loop_cases_induct)
  case (step env t n remaining fp last_pct)
  show ?case
  proof (cases "halts env n \<or> remaining = 0")
    case True
    then show ?thesis by (simp add: chunk_loop_halt(1) [OF True])
  next
    case False
    then have h: "\<not> halts env n" and r: "remaining \<noteq> 0" by simp_all
    show ?thesis
      using step [OF h r]
      by (simp add: chunk_loop_step_proj [OF h r] chunk_texts_plain chunk_progress_def)
  qed
qed

lemma chunk_loop_increasing:
  "last_pct \<le> progress_pct (fp + CHUNK_FRAMES) t \<Longrightarrow>
   sorted_wrt (<) (progress_values (snd (snd (chunk_loop env t n remaining fp last_pct)))) \<and>
   (\<forall>p \<in> set (progress_values (snd (snd (chunk_loop env t n remaining fp last_pct)))).
       last_pct < p \<and> p \<le> 100)"
proof (induction env t n remaining fp last_pct rule: chunk_loop_cases_induct)
  case (step env t n remaining fp last_pct)
  show ?case
  proof (cases "halts env n \<or> remaining = 0")
    case True
    then show ?thesis by (simp add: chunk_loop_halt(1) [OF True])
  next
    case False
    then have h: "\<not> halts env n" and r: "remaining \<noteq> 0" by simp_all
    let ?pct = "progress_pct (fp + CHUNK_FRAMES) t"
    let ?rec = "chunk_loop env t (Suc n) (remaining - CHUNK_FRAMES) (fp + CHUNK_FRAMES) ?pct"
    have "?pct \<le> progress_pct (fp + CHUNK_FRAMES + CHUNK_FRAMES) t"
      by (rule progress_pct_mono) simp
    from step(1) [OF h r this]
    have ih: "sorted_wrt (<) (progress_values (snd (snd ?rec)))"
      "\<forall>p \<in> set (progress_values (snd (snd ?rec))). ?pct < p \<and> p \<le> 100"
      by simp_all
    have b: "?pct \<le> 100" using progress_pct_bounds [of "fp + CHUNK_FRAMES" t] by simp
    have pv: "progress_values (snd (snd (chunk_loop env t n remaining fp last_pct))) =
        progress_values (chunk_progress (fp + CHUNK_FRAMES) t last_pct) @ progress_values (snd (snd ?rec))"
      by (simp add: chunk_loop_step_proj [OF h r] progress_values_append chunk_texts_plain)
    show ?thesis
      unfolding pv using ih b step(2)
      by (auto simp: chunk_progress_def sorted_wrt_append)
  qed
qed

lemma chunk_loop_reaches_100:
  "fst (chunk_loop env t n remaining fp last_pct) = Exhausted \<Longrightarrow>
   t \<le> fp + remaining \<Longrightarrow> 0 < t \<Longrightarrow> 0 < remaining \<Longrightarrow>
   100 \<in> set (progress_values (snd (snd (chunk_loop env t n remaining fp last_pct)))) \<or>
   last_pct = 100"
proof (induction env t n remaining fp last_pct rule: chunk_loop_cases_induct)
  case (step env t n remaining fp last_pct)
  have r: "remaining \<noteq> 0" using step.prems(4) by simp
  have h: "\<not> halts env n"
  proof
    assume "halts env n"
    then have "fst (chunk_loop env t n remaining fp last_pct) = halt_exit env n"
      "halt_exit env n \<noteq> Exhausted"
      using r by (auto simp: chunk_loop_halt(2) halts_def halt_exit_def split: option.splits)
    then show False using step.prems(1) by simp
  qed
  let ?pct = "progress_pct (fp + CHUNK_FRAMES) t"
  let ?rem = "remaining - CHUNK_FRAMES"
  let ?rec = "chunk_loop env t (Suc n) ?rem (fp + CHUNK_FRAMES) ?pct"
  have ex: "fst ?rec = Exhausted"
    using step.prems(1) by (simp add: chunk_loop_step_proj [OF h r])
  have pv: "progress_values (snd (snd (chunk_loop env t n remaining fp last_pct))) =
      progress_values (chunk_progress (fp + CHUNK_FRAMES) t last_pct) @ progress_values (snd (snd ?rec))"
    by (simp add: chunk_loop_step_proj [OF h r] progress_values_append chunk_texts_plain)
  have "100 \<in> set (progress_values (snd (snd ?rec))) \<or> ?pct = 100"
  proof (cases "?rem = 0")
    case True
    then have "t \<le> fp + CHUNK_FRAMES" using step.prems(2) by simp
    from progress_pct_full [OF step.prems(3) this] show ?thesis by simp
  next
    case False
    then have r': "0 < ?rem" by simp
    have "t \<le> fp + CHUNK_FRAMES + ?rem" using step.prems(2) by simp
    from step.IH [OF h r ex this step.prems(3) r'] show ?thesis .
  qed
  then show ?case unfolding pv by (auto simp: chunk_progress_def)
qed

lemma chunk_loop_cancelled_at:
  "cancel_at env = Some (Suc k) \<Longrightarrow> model_error env = None \<Longrightarrow> wave_error env = None \<Longrightarrow>
   n \<le> k \<Longrightarrow> CHUNK_FRAMES * (k - n) < remaining \<Longrightarrow>
   fp + CHUNK_FRAMES * (k - n) < t \<Longrightarrow> t < 2 ^ 32 \<Longrightarrow>
   fst (chunk_loop env t n remaining fp last_pct) = Cancelled \<and>
   fst (snd (chunk_loop env t n remaining fp last_pct)) = fp + CHUNK_FRAMES * (k - n) \<and>
   list_all (\<lambda>p. p \<le> 99) (progress_values (snd (snd (chunk_loop env t n remaining fp last_pct))))"
proof (induction env t n remaining fp last_pct rule: chunk_loop_cases_induct)
  case (step env t n remaining fp last_pct)
  have nf: "read_failure env j = None" "accept_failure env j = None" for j
    using step.prems(2,3) by (simp_all add: read_failure_def accept_failure_def)
  show ?case
  proof (cases "n = k")
    case True
    then have "is_cancelled env (Suc n)" using step.prems(1) by (simp add: is_cancelled_def)
    then show ?thesis using True by (simp add: chunk_loop_cancel)
  next
    case False
    then have lt: "n < k" using step.prems(4) by simp
    then have "\<not> is_cancelled env (Suc n)" using step.prems(1) by (simp add: is_cancelled_def)
    then have h: "\<not> halts env n" using nf by (simp add: not_halts)
    have r: "remaining \<noteq> 0" using step.prems(5) by auto
    let ?pct = "progress_pct (fp + CHUNK_FRAMES) t"
    let ?rec = "chunk_loop env t (Suc n) (remaining - CHUNK_FRAMES) (fp + CHUNK_FRAMES) ?pct"
    have k: "k - n = Suc (k - Suc n)" using lt by simp
    have a: "Suc n \<le> k" using lt by simp
    have b: "CHUNK_FRAMES * (k - Suc n) < remaining - CHUNK_FRAMES"
      using step.prems(5) unfolding k by simp
    have c: "fp + CHUNK_FRAMES + CHUNK_FRAMES * (k - Suc n) < t"
      using step.prems(6) unfolding k by simp
    from step.IH [OF h r step.prems(1,2,3) a b c step.prems(7)]
    have ih: "fst ?rec = Cancelled"
      "fst (snd ?rec) = fp + CHUNK_FRAMES + CHUNK_FRAMES * (k - Suc n)"
      "list_all (\<lambda>p. p \<le> 99) (progress_values (snd (snd ?rec)))" by simp_all
    have "fp + CHUNK_FRAMES < t" using c by simp
    from progress_pct_partial [OF this step.prems(7)] have p: "?pct \<le> 99" .
    show ?thesis
      using ih p
      by (simp add: chunk_loop_step_proj [OF h r] progress_values_append chunk_texts_plain
          chunk_progress_def k)
  qed
qed

lemma round_half_even_near:
  assumes "\<bar>x - of_int m\<bar> < 1 / 2"
  shows "round_half_even x = m"
proof (cases "of_int m \<le> x")
  case True
  then have f: "\<lfloor>x\<rfloor> = m" using assms by (intro floor_unique) linarith+
  show ?thesis using True assms by (simp add: round_half_even_def f Let_def)
next
  case False
  then have f: "\<lfloor>x\<rfloor> = m - 1" using assms by (intro floor_unique) (simp, linarith)+
  show ?thesis using False assms by (simp add: round_half_even_def f Let_def)
qed

lemma fl_nearest:
  assumes "2 ^ 52 < m" and "m < 2 ^ 53"
    and "\<bar>x - of_int m * 2 powi e\<bar> < 2 powi e / 2"
  shows "fl x = of_int m * 2 powi e"
proof -
  define u :: rat where "u = 2 powi e"
  have u: "0 < u" by (simp add: u_def pow2_pos)
  have m1: "(2::rat) ^ 52 + 1 \<le> of_int m"
  proof -
    have "2 ^ 52 + 1 \<le> m" using assms(1) by simp
    then have "(of_int (2 ^ 52 + 1) :: rat) \<le> of_int m" by (simp only: of_int_le_iff)
    then show ?thesis by simp
  qed
  have m2: "of_int m \<le> (2::rat) ^ 53 - 1"
  proof -
    have "m \<le> 2 ^ 53 - 1" using assms(2) by simp
    then have "(of_int m :: rat) \<le> of_int (2 ^ 53 - 1)" by (simp only: of_int_le_iff)
    then show ?thesis by simp
  qed
  have d: "\<bar>x / u - of_int m\<bar> < 1 / 2"
  proof -
    have "x / u - of_int m = (x - of_int m * u) / u" using u by (simp add: field_simps)
    then have "\<bar>x / u - of_int m\<bar> = \<bar>x - of_int m * u\<bar> / u" using u by (simp add: abs_divide)
    also have "\<dots> < (u / 2) / u" using assms(3) u unfolding u_def [symmetric]
      by (simp add: divide_strict_right_mono)
    finally show ?thesis using u by simp
  qed
  then have lo: "of_int m - 1 / 2 < x / u" and hi: "x / u < of_int m + 1 / 2" by linarith+
  have m1': "(4503599627370497::rat) \<le> of_int m" using m1 by simp
  have m2': "of_int m \<le> (9007199254740991::rat)" using m2 by simp
  have xpos: "0 < x / u" using lo m1' by linarith
  then have x: "0 < x" using u by (simp add: zero_less_divide_iff)
  have "2 ^ 52 * u \<le> x"
  proof -
    have "4503599627370496 \<le> x / u" using lo m1' by linarith
    then show ?thesis using u by (simp add: pos_le_divide_eq)
  qed
  moreover have "x < 2 ^ 53 * u"
  proof -
    have "x / u < 9007199254740992" using hi m2' by linarith
    then show ?thesis using u by (simp add: pos_divide_less_eq)
  qed
  moreover have "(2::rat) ^ 52 * u = 2 powi (e + 52)" "(2::rat) ^ 53 * u = 2 powi (e + 52 + 1)"
    using pow2_add [of 52 e] pow2_add [of 53 e] by (simp_all add: u_def add.commute)
  ultimately have "ilog2 x = e + 52" by (intro ilog2_unique) simp_all
  then have "fl x = of_int (round_half_even (x / u)) * u"
    using x by (simp add: fl_def Let_def u_def)
  then show ?thesis using round_half_even_near [OF d] by (simp add: u_def)
qed

lemma fl_nearest_frac:
  assumes "2 ^ 52 < m" and "m < 2 ^ 53"
    and "\<bar>x - of_int m / 2 ^ k\<bar> < 1 / 2 ^ Suc k"
  shows "fl x = of_int m / 2 ^ k"
proof -
  have p: "(2::rat) powi (- int k) = 1 / 2 ^ k" by (simp add: power_int_minus field_simps)
  have "\<bar>x - of_int m * 2 powi (- int k)\<bar> < 2 powi (- int k) / 2"
    using assms(3) unfolding p by simp
  from fl_nearest [OF assms(1,2) this] show ?thesis unfolding p by simp
qed

lemma pct_third: "progress_pct 4000 12000 = 33"
proof -
  have a: "fl (1 / 3) = 6004799503160661 / 2 ^ 54"
    using fl_nearest_frac [of 6004799503160661 "1 / 3" 54] by simp
  have b: "fl (6004799503160661 / 2 ^ 54 * 100) = 4691249611844266 / 2 ^ 47"
    using fl_nearest_frac [of 4691249611844266 "6004799503160661 / 2 ^ 54 * 100" 47] by simp
  have q: "(of_nat 4000 :: rat) / of_nat 12000 = 1 / 3" by simp
  have "progress_pct 4000 12000 = min (py_int (fl (fl (1 / 3) * 100))) 100"
    unfolding progress_pct_def q ..
  also have "\<dots> = min (py_int (4691249611844266 / 2 ^ 47)) 100" unfolding a b ..
  also have "\<dots> = 33" by (simp add: py_int_def floor_rat_numeral)
  finally show ?thesis .
qed

lemma pct_two_thirds: "progress_pct 8000 12000 = 66"
proof -
  have a: "fl (2 / 3) = 6004799503160661 / 2 ^ 53"
    using fl_nearest_frac [of 6004799503160661 "2 / 3" 53] by simp
  have b: "fl (6004799503160661 / 2 ^ 53 * 100) = 4691249611844266 / 2 ^ 46"
    using fl_nearest_frac [of 4691249611844266 "6004799503160661 / 2 ^ 53 * 100" 46] by simp
  have q: "(of_nat 8000 :: rat) / of_nat 12000 = 2 / 3" by simp
  have "progress_pct 8000 12000 = min (py_int (fl (fl (2 / 3) * 100))) 100"
    unfolding progress_pct_def q ..
  also have "\<dots> = min (py_int (4691249611844266 / 2 ^ 46)) 100" unfolding a b ..
  also have "\<dots> = 66" by (simp add: py_int_def floor_rat_numeral)
  finally show ?thesis .
qed

lemma pct_29: "progress_pct 116000 400000 = 28"
proof -
  have a: "fl (29 / 100) = 5224175567749775 / 2 ^ 54"
    using fl_nearest_frac [of 5224175567749775 "29 / 100" 54] by simp
  have b: "fl (5224175567749775 / 2 ^ 54 * 100) = 8162774324609023 / 2 ^ 48"
    using fl_nearest_frac [of 8162774324609023 "5224175567749775 / 2 ^ 54 * 100" 48] by simp
  have q: "(of_nat 116000 :: rat) / of_nat 400000 = 29 / 100" by simp
  have "progress_pct 116000 400000 = min (py_int (fl (fl (29 / 100) * 100))) 100"
    unfolding progress_pct_def q ..
  also have "\<dots> = min (py_int (8162774324609023 / 2 ^ 48)) 100" unfolding a b ..
  also have "\<dots> = 28" by (simp add: py_int_def floor_rat_numeral)
  finally show ?thesis .
qed

lemma no_terminal_no_finished: "filter terminal evs = [] \<Longrightarrow> finished_signal \<notin> set evs"
  by (auto simp: filter_empty_conv)

lemma strict_sorted_last:
  "sorted_wrt (<) xs \<Longrightarrow> \<forall>x \<in> set xs. x \<le> m \<Longrightarrow> m \<in> set xs \<Longrightarrow> last xs = (m::int)"
proof (induction xs)
  case Nil
  then show ?case by simp
next
  case (Cons x xs)
  show ?case
  proof (cases "xs = []")
    case True
    then show ?thesis using Cons.prems by simp
  next
    case False
    have "m \<in> set xs"
    proof (rule ccontr)
      assume "m \<notin> set xs"
      then have "m = x" using Cons.prems(3) by simp
      moreover obtain y where "y \<in> set xs" using False by (cases xs) auto
      ultimately show False using Cons.prems(1,2) by fastforce
    qed
    then show ?thesis using Cons False by simp
  qed
qed

lemma loadable_no_failure:
  "loadable env \<Longrightarrow> load_failure env = None \<and> open_failure env = None"
  by (simp add: loadable_def load_failure_def open_failure_def)

lemma run_cases:
  obtains (no_tool) "ffmpeg env = None"
      "file_worker_run env w = ([error_occurred FfmpegNotInstalled], cleanup env w)"
  | (convert_failed) "ffmpeg env \<noteq> None" "returncode env \<noteq> 0"
      "file_worker_run env w = ([error_occurred (FfmpegFailed (take 500 (stderr env)))],
         cleanup env (w\<lparr>temp_wav := Some (temp_path env), temp_file_exists := True\<rparr>))"
  | (early_cancel) "converted env" "is_cancelled env 0"
      "file_worker_run env w =
         ([], cleanup env (w\<lparr>temp_wav := Some (temp_path env), temp_file_exists := True\<rparr>))"
  | (no_model) "converted env" "\<not> is_cancelled env 0" "\<not> model_dir_exists env"
      "file_worker_run env w = ([error_occurred ModelNotFound],
         cleanup env (w\<lparr>temp_wav := Some (temp_path env), temp_file_exists := True\<rparr>))"
  | (load_failed) m where "converted env" "\<not> is_cancelled env 0" "model_dir_exists env"
      "load_failure env = Some m"
      "file_worker_run env w = ([error_occurred (Unexpected m)],
         cleanup env (w\<lparr>temp_wav := Some (temp_path env), temp_file_exists := True\<rparr>))"
  | (open_failed) m where "converted env" "\<not> is_cancelled env 0" "model_dir_exists env"
      "load_failure env = None" "open_failure env = Some m"
      "file_worker_run env w = ([error_occurred (Unexpected m)],
         cleanup env (w\<lparr>temp_wav := Some (temp_path env), temp_file_exists := True\<rparr>))"
  | (empty) "converted env" "\<not> is_cancelled env 0" "model_dir_exists env"
      "load_failure env = None" "open_failure env = None" "getnframes env = 0"
      "file_worker_run env w = ([error_occurred EmptyAudio],
         cleanup env (w\<lparr>temp_wav := Some (temp_path env), temp_file_exists := True\<rparr>))"
  | (loop_cancel) fp evs where "converted env" "\<not> is_cancelled env 0" "model_dir_exists env"
      "load_failure env = None" "open_failure env = None" "0 < getnframes env"
      "chunk_loop env (getnframes env) 0 (getnframes env) 0 (- 1) = (Cancelled, fp, evs)"
      "file_worker_run env w =
         (evs, cleanup env (w\<lparr>temp_wav := Some (temp_path env), temp_file_exists := True\<rparr>))"
  | (loop_raised) m fp evs where "converted env" "\<not> is_cancelled env 0" "model_dir_exists env"
      "load_failure env = None" "open_failure env = None" "0 < getnframes env"
      "chunk_loop env (getnframes env) 0 (getnframes env) 0 (- 1) = (Raised m, fp, evs)"
      "file_worker_run env w =
         (evs @ [error_occurred (Unexpected m)],
          cleanup env (w\<lparr>temp_wav := Some (temp_path env), temp_file_exists := True\<rparr>))"
  | (completed) fp evs where "converted env" "\<not> is_cancelled env 0" "model_dir_exists env"
      "load_failure env = None" "open_failure env = None" "0 < getnframes env"
      "chunk_loop env (getnframes env) 0 (getnframes env) 0 (- 1) = (Exhausted, fp, evs)"
      "file_worker_run env w =
         (evs @ text_events (final_text env) @ [progress_updated 100, finished_signal],
          cleanup env (w\<lparr>temp_wav := Some (temp_path env), temp_file_exists := True\<rparr>))"
proof (cases "ffmpeg env")
  case None
  then show ?thesis
    using no_tool by (simp add: file_worker_run_def do_transcription_def ensure_wav_def)
next
  case (Some tool)
  show ?thesis
  proof (cases "returncode env = 0")
    case False
    then show ?thesis
      using convert_failed Some
      by (simp add: file_worker_run_def do_transcription_def ensure_wav_def Let_def)
  next
    case rc: True
    have conv: "converted env" using Some rc by (simp add: converted_def)
    show ?thesis
    proof (cases "is_cancelled env 0")
      case True
      then show ?thesis
        using early_cancel conv Some rc
        by (simp add: file_worker_run_def do_transcription_def ensure_wav_def Let_def)
    next
      case nc: False
      show ?thesis
      proof (cases "model_dir_exists env")
        case False
        then show ?thesis
          using no_model conv nc Some rc
          by (simp add: file_worker_run_def do_transcription_def ensure_wav_def Let_def)
      next
        case md: True
        show ?thesis
        proof (cases "load_failure env")
          case (Some m)
          then show ?thesis
            using load_failed [OF conv nc md] \<open>ffmpeg env = Some tool\<close> rc nc md
            by (simp add: file_worker_run_def do_transcription_def ensure_wav_def Let_def)
        next
          case lf: None
          show ?thesis
          proof (cases "open_failure env")
            case (Some m)
            then show ?thesis
              using open_failed [OF conv nc md lf] \<open>ffmpeg env = Some tool\<close> rc nc md lf
              by (simp add: file_worker_run_def do_transcription_def ensure_wav_def Let_def)
          next
            case ofl: None
            show ?thesis
            proof (cases "getnframes env = 0")
              case True
              then show ?thesis
                using empty [OF conv nc md lf ofl] \<open>ffmpeg env = Some tool\<close> rc nc md lf ofl
                by (simp add: file_worker_run_def do_transcription_def ensure_wav_def Let_def)
            next
              case False
              then have pos: "0 < getnframes env" by simp
              obtain exit fp evs where
                c: "chunk_loop env (getnframes env) 0 (getnframes env) 0 (- 1) = (exit, fp, evs)"
                by (cases "chunk_loop env (getnframes env) 0 (getnframes env) 0 (- 1)")
              show ?thesis
              proof (cases exit)
                case Cancelled
                then show ?thesis
                  using loop_cancel [OF conv nc md lf ofl pos] c \<open>ffmpeg env = Some tool\<close>
                    rc md lf ofl nc False
                  by (simp add: file_worker_run_def do_transcription_def ensure_wav_def Let_def)
              next
                case Exhausted
                then show ?thesis
                  using completed [OF conv nc md lf ofl pos] c \<open>ffmpeg env = Some tool\<close>
                    rc md lf ofl nc False
                  by (simp add: file_worker_run_def do_transcription_def ensure_wav_def Let_def)
              next
                case (Raised m)
                then show ?thesis
                  using loop_raised [OF conv nc md lf ofl pos] c \<open>ffmpeg env = Some tool\<close>
                    rc md lf ofl nc False
                  by (simp add: file_worker_run_def do_transcription_def ensure_wav_def Let_def)
              qed
            qed
          qed
        qed
      qed
    qed
  qed
qed

lemma cleanup_fresh:
  "temp_wav (cleanup env new_worker) = None \<and> \<not> temp_file_exists (cleanup env new_worker)"
  by (simp add: cleanup_def new_worker_def)

lemma cleanup_created:
  "temp_wav (cleanup env (new_worker\<lparr>temp_wav := Some p, temp_file_exists := True\<rparr>)) = None \<and>
   temp_file_exists (cleanup env (new_worker\<lparr>temp_wav := Some p, temp_file_exists := True\<rparr>))
     = remove_raises env"
  by (simp add: cleanup_def new_worker_def)

lemma loop_exit_outcome:
  "fst (chunk_loop env (getnframes env) 0 (getnframes env) 0 (- 1)) = loop_outcome env"
  by (simp add: chunk_loop_exit loop_outcome_def)

lemma run_ends_as_outcome:
  "filter terminal (fst (file_worker_run env w)) = outcome_events (run_outcome env) \<and>
   (run_outcome env = Stopped \<or>
    fst (file_worker_run env w) \<noteq> [] \<and>
    [last (fst (file_worker_run env w))] = outcome_events (run_outcome env))"
proof (cases env w rule: run_cases)
  case no_tool
  then show ?thesis by (simp add: run_outcome_def)
next
  case convert_failed
  then show ?thesis by (auto simp: run_outcome_def)
next
  case early_cancel
  then show ?thesis by (auto simp: run_outcome_def converted_def)
next
  case no_model
  then show ?thesis by (auto simp: run_outcome_def converted_def)
next
  case (load_failed m)
  then show ?thesis by (auto simp: run_outcome_def converted_def)
next
  case (open_failed m)
  then show ?thesis by (auto simp: run_outcome_def converted_def)
next
  case empty
  then show ?thesis by (auto simp: run_outcome_def converted_def)
next
  case (loop_cancel fp evs)
  have nt: "filter terminal evs = []"
    using chunk_loop_no_terminal [of env "getnframes env" 0 "getnframes env" 0 "- 1"] loop_cancel(7)
    by simp
  have "loop_outcome env = Cancelled" using loop_exit_outcome [of env] loop_cancel(7) by simp
  then show ?thesis using loop_cancel nt by (auto simp: run_outcome_def converted_def)
next
  case (loop_raised m fp evs)
  have nt: "filter terminal evs = []"
    using chunk_loop_no_terminal [of env "getnframes env" 0 "getnframes env" 0 "- 1"] loop_raised(7)
    by simp
  have "loop_outcome env = Raised m" using loop_exit_outcome [of env] loop_raised(7) by simp
  then show ?thesis using loop_raised nt by (auto simp: run_outcome_def converted_def)
next
  case (completed fp evs)
  have nt: "filter terminal evs = []"
    using chunk_loop_no_terminal [of env "getnframes env" 0 "getnframes env" 0 "- 1"] completed(7)
    by simp
  have "loop_outcome env = Exhausted" using loop_exit_outcome [of env] completed(7) by simp
  then show ?thesis
    using completed nt
    by (auto simp: run_outcome_def converted_def filter_terminal_text_events)
qed

lemma not_cancelled_not_stopped: "cancel_at env = None \<Longrightarrow> run_outcome env \<noteq> Stopped"
proof -
  assume c: "cancel_at env = None"
  then have nc: "\<not> is_cancelled env n" for n by (simp add: is_cancelled_def)
  have "halt_exit env n \<noteq> Cancelled" "end_exit env n \<noteq> Cancelled" for n
    using nc by (auto simp: halt_exit_def end_exit_def split: option.splits)
  then have "loop_outcome env \<noteq> Cancelled"
    by (auto simp: loop_outcome_def exit_from_def split: option.splits)
  then show ?thesis
    using nc by (auto simp: run_outcome_def split: option.splits loop_exit.splits)
qed

lemma run_cleanup:
  "temp_wav (snd (file_worker_run env new_worker)) = None \<and>
   (temp_file_exists (snd (file_worker_run env new_worker)) \<longrightarrow> remove_raises env)"
  by (cases env new_worker rule: run_cases) (simp_all add: cleanup_fresh cleanup_created)

lemma progress_pct_8000: "progress_pct 8000 8000 = 100"
  by (rule progress_pct_full) simp_all

lemma progress_pct_12000: "progress_pct 12000 12000 = 100"
  by (rule progress_pct_full) simp_all

lemma quiet_no_halt:
  assumes "model_error env = None" and "wave_error env = None"
  shows "halts env n = is_cancelled env (Suc n)"
  using assms by (simp add: halts_def read_failure_def accept_failure_def)

lemma loop8000:
  "chunk_loop env8000 8000 0 8000 0 (- 1) =
     (Exhausted, 8000, [progress_updated 50, progress_updated 100])"
proof -
  have nc: "\<not> is_cancelled env8000 n" for n by (simp add: is_cancelled_def env8000_def)
  have nh: "\<not> halts env8000 n" for n
    using nc by (simp add: quiet_no_halt env8000_def)
  have rf: "read_failure env8000 n = None" for n by (simp add: read_failure_def env8000_def)
  have t: "chunk_texts env8000 n = []" for n by (simp add: chunk_texts_def env8000_def)
  have "chunk_loop env8000 8000 2 0 8000 100 = (Exhausted, 8000, [])"
    by (rule chunk_loop_done [OF nc rf])
  then have "chunk_loop env8000 8000 1 4000 4000 50 = (Exhausted, 8000, [progress_updated 100])"
    by (simp add: chunk_loop_step [OF nh] CHUNK_FRAMES_def t chunk_progress_def progress_pct_8000
        numeral_2_eq_2)
  then show ?thesis
    by (simp add: chunk_loop_step [OF nh] CHUNK_FRAMES_def t chunk_progress_def progress_pct_half)
qed

lemma loop8000_cancelled:
  assumes "cancel_at env = Some 2" and "recognizer env = (\<lambda>n. Hypothesis None)"
    and "model_error env = None" and "wave_error env = None"
  shows "chunk_loop env 8000 0 8000 0 (- 1) = (Cancelled, 4000, [progress_updated 50])"
proof -
  have nh: "\<not> halts env 0" using assms by (simp add: quiet_no_halt is_cancelled_def)
  have c: "is_cancelled env (Suc 1)" using assms by (simp add: is_cancelled_def)
  have t: "chunk_texts env n = []" for n using assms by (simp add: chunk_texts_def)
  have "chunk_loop env 8000 1 4000 4000 50 = (Cancelled, 4000, [])"
    by (rule chunk_loop_cancel [OF c])
  then show ?thesis
    by (simp add: chunk_loop_step [OF nh] CHUNK_FRAMES_def t chunk_progress_def progress_pct_half)
qed

lemma loop8000_broken:
  "chunk_loop broken_read 8000 0 8000 0 (- 1) =
     (Raised ''file read failed'', 4000, [progress_updated 50])"
proof -
  have nc: "\<not> is_cancelled broken_read n" for n
    by (simp add: is_cancelled_def broken_read_def env8000_def)
  have nh: "\<not> halts broken_read 0"
    by (simp add: halts_def is_cancelled_def read_failure_def accept_failure_def
        broken_read_def env8000_def)
  have rf: "read_failure broken_read 1 = Some ''file read failed''"
    by (simp add: read_failure_def broken_read_def)
  have t: "chunk_texts broken_read n = []" for n
    by (simp add: chunk_texts_def broken_read_def env8000_def)
  have "chunk_loop broken_read 8000 1 4000 4000 50 = (Raised ''file read failed'', 4000, [])"
    by (rule chunk_loop_read_raises [OF nc rf])
  then show ?thesis
    by (simp add: chunk_loop_step [OF nh] CHUNK_FRAMES_def t chunk_progress_def progress_pct_half)
qed

lemma run8000:
  "file_worker_run env8000 new_worker =
     ([progress_updated 50, progress_updated 100, progress_updated 100, finished_signal],
      \<lparr>temp_wav = None, temp_file_exists = False\<rparr>)"
  using loop8000
  by (simp add: file_worker_run_def do_transcription_def ensure_wav_def Let_def env8000_def
      is_cancelled_def text_events_def get_text_def strip_def cleanup_def new_worker_def
      load_failure_def open_failure_def)

lemma run8000_cancelled:
  "file_worker_run cancelled8000 new_worker =
     ([progress_updated 50], \<lparr>temp_wav = None, temp_file_exists = False\<rparr>)"
proof -
  have "chunk_loop cancelled8000 8000 0 8000 0 (- 1) = (Cancelled, 4000, [progress_updated 50])"
    by (rule loop8000_cancelled) (simp_all add: cancelled8000_def env8000_def)
  then show ?thesis
    by (simp add: file_worker_run_def do_transcription_def ensure_wav_def Let_def env8000_def
      cancelled8000_def is_cancelled_def cleanup_def new_worker_def
      load_failure_def open_failure_def)
qed

lemma run8000_locked:
  "file_worker_run locked8000 new_worker =
     ([progress_updated 50], \<lparr>temp_wav = None, temp_file_exists = True\<rparr>)"
proof -
  have "chunk_loop locked8000 8000 0 8000 0 (- 1) = (Cancelled, 4000, [progress_updated 50])"
    by (rule loop8000_cancelled) (simp_all add: locked8000_def env8000_def)
  then show ?thesis
    by (simp add: file_worker_run_def do_transcription_def ensure_wav_def Let_def env8000_def
      locked8000_def is_cancelled_def cleanup_def new_worker_def
      load_failure_def open_failure_def)
qed

lemma run8000_broken:
  "file_worker_run broken_read new_worker =
     ([progress_updated 50, error_occurred (Unexpected ''file read failed'')],
      \<lparr>temp_wav = None, temp_file_exists = False\<rparr>)"
  using loop8000_broken
  by (simp add: file_worker_run_def do_transcription_def ensure_wav_def Let_def env8000_def
      broken_read_def is_cancelled_def cleanup_def new_worker_def
      load_failure_def open_failure_def)

lemma run_no_tool:
  "file_worker_run no_tool_cancelled new_worker =
     ([error_occurred FfmpegNotInstalled], \<lparr>temp_wav = None, temp_file_exists = False\<rparr>)"
  by (simp add: file_worker_run_def do_transcription_def ensure_wav_def no_tool_cancelled_def
      env8000_def cleanup_def new_worker_def)

lemma chunk_count_8000: "chunk_count 8000 = 2"
  by (simp add: chunk_count_def CHUNK_FRAMES_def)

lemma chunk_count_12000: "chunk_count 12000 = 3"
  by (simp add: chunk_count_def CHUNK_FRAMES_def)

lemma upt_0_2: "[0..<2] = [0, Suc 0]"
  by (simp add: numeral_2_eq_2)

lemma upt_0_3: "[0..<3] = [0, Suc 0, 2]"
  by (simp add: numeral_3_eq_3 numeral_2_eq_2)

lemma upt_1_4: "[1..<Suc 3] = [1, 2, 3]"
  by (simp add: numeral_3_eq_3 numeral_2_eq_2 upt_conv_Cons)

lemma outcome8000: "run_outcome env8000 = Completed"
proof -
  have "\<not> halts env8000 n" for n
    by (simp add: quiet_no_halt is_cancelled_def env8000_def)
  then have "loop_outcome env8000 = Exhausted"
    by (simp add: loop_outcome_def exit_from_def env8000_def chunk_count_8000 upt_0_2
        end_exit_def is_cancelled_def read_failure_def)
  then show ?thesis
    by (simp add: run_outcome_def env8000_def is_cancelled_def load_failure_def open_failure_def)
qed

lemma outcome8000_cancelled: "run_outcome cancelled8000 = Stopped"
proof -
  have "\<not> halts cancelled8000 0" "halts cancelled8000 (Suc 0)"
    by (simp_all add: quiet_no_halt is_cancelled_def env8000_def cancelled8000_def)
  then have "loop_outcome cancelled8000 = Cancelled"
    by (simp add: loop_outcome_def exit_from_def env8000_def cancelled8000_def chunk_count_8000
        upt_0_2 halt_exit_def is_cancelled_def)
  then show ?thesis
    by (simp add: run_outcome_def env8000_def cancelled8000_def is_cancelled_def
        load_failure_def open_failure_def)
qed

lemma outcome8000_broken:
  "run_outcome broken_read = Failed (Unexpected ''file read failed'')"
proof -
  have "\<not> halts broken_read 0" "halts broken_read (Suc 0)"
    by (simp_all add: halts_def is_cancelled_def read_failure_def accept_failure_def
        env8000_def broken_read_def)
  then have "loop_outcome broken_read = Raised ''file read failed''"
    by (simp add: loop_outcome_def exit_from_def env8000_def broken_read_def chunk_count_8000
        upt_0_2 halt_exit_def is_cancelled_def read_failure_def)
  then show ?thesis
    by (simp add: run_outcome_def env8000_def broken_read_def is_cancelled_def
        load_failure_def open_failure_def)
qed

lemma outcome_no_tool: "run_outcome no_tool_cancelled = Failed FfmpegNotInstalled"
  by (simp add: run_outcome_def no_tool_cancelled_def)

lemma chunks_done_12000: "chunks_done env12000 = 3"
proof -
  have "\<not> halts env12000 n" for n
    by (simp add: quiet_no_halt is_cancelled_def env8000_def env12000_def)
  then show ?thesis
    by (simp add: chunks_done_def done_from_def env12000_def env8000_def chunk_count_12000 upt_0_3)
qed

lemma progress_values_mem: "progress_updated p \<in> set evs \<longleftrightarrow> p \<in> set (progress_values evs)"
  by (induction evs rule: progress_values.induct) auto

lemma loop_progress_shape:
  "sorted_wrt (<) (loop_progress env) \<and> list_all (\<lambda>p. 0 \<le> p \<and> p \<le> 100) (loop_progress env)"
proof -
  have "- 1 \<le> progress_pct (0 + CHUNK_FRAMES) (getnframes env)"
    using progress_pct_bounds [of "0 + CHUNK_FRAMES" "getnframes env"] by simp
  from chunk_loop_increasing [OF this, of env 0 "getnframes env"]
  show ?thesis by (auto simp: loop_progress_def list_all_iff)
qed

lemma loop_progress_dedup:
  "loop_progress env =
     remdups_adj (map (\<lambda>j. progress_pct (CHUNK_FRAMES * j) (getnframes env))
                    [1..<Suc (chunks_done env)])"
proof -
  let ?ps = "map (\<lambda>j. progress_pct (CHUNK_FRAMES * j) (getnframes env)) [1..<Suc (chunks_done env)]"
  have lp: "loop_progress env = tl (remdups_adj (- 1 # ?ps))"
    using chunk_loop_progress [of env "getnframes env" 0 "getnframes env" 0 "- 1"]
    by (simp add: loop_progress_def chunks_done_def)
  show ?thesis
  proof (cases ?ps)
    case Nil
    then show ?thesis unfolding lp by simp
  next
    case (Cons p ps)
    then have "p \<in> set ?ps" by simp
    then have "0 \<le> p" using progress_pct_bounds by auto
    then have "- 1 \<noteq> p" by simp
    then show ?thesis unfolding lp Cons by simp
  qed
qed

lemma open_streams_runtime_error:
  "fst (open_streams penv sources eng) = Some (RuntimeError m) \<Longrightarrow>
   streams (snd (open_streams penv sources eng)) = []"
proof -
  have k: "fst (open_loop penv srcs e) = None \<or> fst (open_loop penv srcs e) = Some KeyError"
    for srcs e
    by (induction srcs arbitrary: e) (auto simp: Let_def split: option.splits)
  assume a: "fst (open_streams penv sources eng) = Some (RuntimeError m)"
  obtain r e' where o: "open_loop penv sources (close_streams penv eng) = (r, e')"
    by (cases "open_loop penv sources (close_streams penv eng)")
  from k [of sources "close_streams penv eng"] o have "r = None \<or> r = Some KeyError" by simp
  then show ?thesis using a o by (auto simp: open_streams_def split: if_splits)
qed

lemma chunks_done_le: "chunks_done env \<le> chunk_count (getnframes env)"
proof (cases "find (halts env) [0..<0 + chunk_count (getnframes env)]")
  case None
  then show ?thesis by (simp add: chunks_done_def done_from_def)
next
  case (Some j)
  then have "j \<in> set [0..<0 + chunk_count (getnframes env)]"
    unfolding find_Some_iff by (metis nth_mem)
  then show ?thesis using Some by (simp add: chunks_done_def done_from_def)
qed

lemma chunks_done_undisturbed:
  assumes "cancel_at env = None" and "model_error env = None" and "wave_error env = None"
  shows "chunks_done env = chunk_count (getnframes env)"
proof -
  have "\<not> halts env n" for n
    using assms by (simp add: quiet_no_halt is_cancelled_def)
  then have "find (halts env) [0..<0 + chunk_count (getnframes env)] = None"
    by (simp add: find_None_iff)
  then show ?thesis by (simp add: chunks_done_def done_from_def)
qed

lemma cycle_events_no_error: "filter worker_terminal (cycle_events fp) = []"
  by (cases fp) (auto simp: cycle_events_def emit_str_def split: option.splits)

lemma capture_loop_no_error:
  "filter worker_terminal (emitted (snd (capture_loop schedule eng tr))) =
   filter worker_terminal (emitted tr)"
  by (induction schedule eng tr rule: capture_loop.induct)
    (auto simp: cycle_events_no_error split: sum.splits)

lemma open_streams_ok_nonempty:
  "fst (open_streams penv sources eng) = None \<Longrightarrow>
   streams (snd (open_streams penv sources eng)) \<noteq> []"
  by (cases "open_loop penv sources (close_streams penv eng)")
    (auto simp: open_streams_def split: option.splits if_splits)

section \<open>Properties\<close>

subsection \<open>Stream mixer\<close>

text \<open>
  C8. For every integer pre-clamp sum: a value of at least 32767 is mapped to 32767, a value
  of at most -32768 is mapped to -32768, and a value inside the int16 range is returned
  unchanged.
\<close>

theorem clamp16_saturates:
  "(32767 \<le> v \<longrightarrow> clamp16 v = 32767) \<and>
   (v \<le> - 32768 \<longrightarrow> clamp16 v = - 32768) \<and>
   (- 32768 \<le> v \<and> v \<le> 32767 \<longrightarrow> clamp16 v = v)"
  by (simp add: clamp16_def)

text \<open>The three cases at 40000, -40000 and 123.\<close>

theorem clamp16_saturates_witness:
  "(32767::int) \<le> 40000 \<and> clamp16 40000 = 32767 \<and>
   (- 40000::int) \<le> - 32768 \<and> clamp16 (- 40000) = - 32768 \<and>
   (- 32768::int) \<le> 123 \<and> (123::int) \<le> 32767 \<and> clamp16 123 = 123"
  using clamp16_saturates [of 40000] clamp16_saturates [of "- 40000"]
    clamp16_saturates [of 123]
  by simp

text \<open>
  C1, as the code has it. In a cycle with at least one open handle, where every buffer
  read holds 4000 samples, \<open>read_and_mix\<close> returns a buffer of 8000 bytes whose sample
  at each position \<open>i\<close> is \<open>clamp16\<close> of the sum, over the handles that were
  active and whose read succeeded, of \<^verbatim>\<open>int(s * gain)\<close>: the float product of the
  handle's sample at \<open>i\<close> and its gain, truncated towards zero. A handle that is
  inactive or whose \<^verbatim>\<open>is_active\<close> or \<^verbatim>\<open>read\<close> raises \<^verbatim>\<open>OSError\<close> adds nothing.
\<close>

theorem read_and_mix_truncated_sum:
  assumes "streams eng \<noteq> []"
    and "list_all (\<lambda>(stream, gain). frame_sized (io stream)) (streams eng)"
    and "i < CHUNK_SIZE"
  shows "\<exists>out. read_and_mix io eng = Inr out \<and>
           length out = CHUNK_SIZE * BYTES_PER_SAMPLE \<and>
           sample_at out i = clamp16 (mixed_sum io (streams eng) i)"
proof -
  let ?out = "concat (map (\<lambda>i. pack_int16 (clamp16 (mixed_sum io (streams eng) i))) [0..<CHUNK_SIZE])"
  have "read_and_mix io eng = Inr ?out" by (rule read_and_mix_eq [OF assms(1,2)])
  moreover have "length ?out = CHUNK_SIZE * BYTES_PER_SAMPLE"
    by (simp add: packed_length BYTES_PER_SAMPLE_def)
  moreover have "sample_at ?out i = clamp16 (mixed_sum io (streams eng) i)"
    by (rule sample_at_packed [OF assms(3)]) (rule int16_range_clamp16)
  ultimately show ?thesis by blast
qed

text \<open>
  Two handles, gain 1.0 delivering silence and gain 0.5 delivering 32767 at every
  position: position 17 of the output holds 16383.
\<close>

theorem read_and_mix_truncated_sum_witness:
  "streams two_sources \<noteq> [] \<and>
   list_all (\<lambda>(stream, gain). frame_sized (zero_and_max stream)) (streams two_sources) \<and>
   17 < CHUNK_SIZE \<and>
   (\<exists>out. read_and_mix zero_and_max two_sources = Inr out \<and>
      length out = CHUNK_SIZE * BYTES_PER_SAMPLE \<and> sample_at out 17 = 16383)"
proof -
  have a: "streams two_sources \<noteq> []" by (simp add: two_sources_def)
  have b: "list_all (\<lambda>(stream, gain). frame_sized (zero_and_max stream)) (streams two_sources)"
    by (simp add: two_sources_def zero_and_max_def frame_sized_def const_frame_length)
  have c: "17 < CHUNK_SIZE" by (simp add: CHUNK_SIZE_def)
  have f: "fl (32767 / 2) = 32767 / 2" using fl_dyadic [of 32767 1] by simp
  have "mixed_sum zero_and_max (streams two_sources) 17 = 16383"
    using c
    by (simp add: mixed_sum_def two_sources_def zero_and_max_def contribution_def
        sample_at_const_frame unpack_int16_def fl_zero f py_int_def floor_rat_numeral)
  then show ?thesis
    using read_and_mix_truncated_sum [OF a b c] a b c by (simp add: clamp16_def)
qed

text \<open>
  C1 as stated fails: with one handle of gain 0.75 delivering the sample 257 at every
  position, the product is 192.75; the code emits 192 at every position, where rounding
  to the nearest integer, of the sum or of each product, gives 193.
\<close>

theorem read_and_mix_round_counterexample:
  "read_and_mix (\<lambda>stream. Frame (const_frame 1 1)) one_source = Inr (const_frame 192 0) \<and>
   sample_at (const_frame 1 1) 0 = 257 \<and>
   sample_at (const_frame 192 0) 0 = 192 \<and>
   spec_round_of_sum [(257, 3 / 4)] = 193 \<and>
   spec_sum_of_rounds [(257, 3 / 4)] = 193"
proof -
  let ?io = "\<lambda>stream::stream. Frame (const_frame 1 1)"
  have a: "streams one_source \<noteq> []" by (simp add: one_source_def)
  have b: "list_all (\<lambda>(stream, gain). frame_sized (?io stream)) (streams one_source)"
    by (simp add: one_source_def frame_sized_def const_frame_length)
  have f: "fl (771 / 4) = 771 / 4" using fl_dyadic [of 771 2] by simp
  have m: "\<forall>i<CHUNK_SIZE. clamp16 (mixed_sum ?io (streams one_source) i) = 192"
    by (simp add: mixed_sum_def one_source_def contribution_def sample_at_const_frame
        unpack_int16_def f py_int_def floor_rat_numeral clamp16_def)
  have "read_and_mix ?io one_source = Inr (const_frame 192 0)"
    unfolding read_and_mix_eq [OF a b] const_samples_packed [OF m] by simp
  moreover have "sample_at (const_frame 1 1) 0 = 257" "sample_at (const_frame 192 0) 0 = 192"
    by (simp_all add: sample_at_const_frame CHUNK_SIZE_def unpack_int16_def)
  moreover have "spec_round_of_sum [(257, 3 / 4)] = 193" "spec_sum_of_rounds [(257, 3 / 4)] = 193"
    by (simp_all add: spec_round_of_sum_def spec_sum_of_rounds_def round_def floor_rat_numeral
        clamp16_def)
  ultimately show ?thesis by simp
qed

text \<open>
  C9. Whenever at least one handle is open (and a successful read returns the 8000 bytes
  it was asked for), \<open>read_and_mix\<close> returns a buffer of exactly 8000 bytes, that is
  4000 int16 samples, and the capture loop feeds that buffer to the recognizer in the same
  cycle. When no handle delivers a buffer in the cycle, because each is inactive or fails,
  the buffer returned and fed is all zeros.
\<close>

theorem read_and_mix_full_frame:
  assumes "streams eng \<noteq> []"
    and "list_all (\<lambda>(stream, gain). frame_sized (io stream)) (streams eng)"
  shows "\<exists>out. read_and_mix io eng = Inr out \<and>
           length out = CHUNK_SIZE * BYTES_PER_SAMPLE \<and>
           length (unpack_pairs out) = CHUNK_SIZE \<and>
           capture_loop [Capture io r] eng tr =
             (None, tr\<lparr>fed := fed tr @ [out],
                        emitted := emitted tr @ cycle_events (process_chunk r)\<rparr>) \<and>
           (list_all (\<lambda>(stream, gain). \<not> delivers (io stream)) (streams eng) \<longrightarrow>
              out = replicate (CHUNK_SIZE * BYTES_PER_SAMPLE) 0)"
proof -
  let ?out = "concat (map (\<lambda>i. pack_int16 (clamp16 (mixed_sum io (streams eng) i))) [0..<CHUNK_SIZE])"
  have r: "read_and_mix io eng = Inr ?out" by (rule read_and_mix_eq [OF assms])
  have len: "length ?out = CHUNK_SIZE * BYTES_PER_SAMPLE"
    by (simp add: packed_length BYTES_PER_SAMPLE_def)
  have ne: "?out \<noteq> []"
  proof
    assume "?out = []"
    then have "length ?out = 0" by (simp only: list.size)
    with len show False by (simp add: CHUNK_SIZE_def BYTES_PER_SAMPLE_def)
  qed
  have un: "length (unpack_pairs ?out) = CHUNK_SIZE"
    by (simp add: unpack_pairs_length len BYTES_PER_SAMPLE_def)
  have cl: "capture_loop [Capture io r] eng tr =
             (None, tr\<lparr>fed := fed tr @ [?out],
                        emitted := emitted tr @ cycle_events (process_chunk r)\<rparr>)"
    by (rule capture_cycle_feeds [OF r ne])
  have "list_all (\<lambda>(stream, gain). \<not> delivers (io stream)) (streams eng) \<longrightarrow>
          ?out = replicate (CHUNK_SIZE * BYTES_PER_SAMPLE) 0"
    using read_and_mix_silent [OF assms(1), of io] r by simp
  with r len un cl show ?thesis by blast
qed

text \<open>
  Two handles, one inactive and one whose read raises: the recognizer is fed 8000 zero
  bytes.
\<close>

theorem read_and_mix_full_frame_witness:
  "streams two_sources \<noteq> [] \<and>
   list_all (\<lambda>(stream, gain). frame_sized (all_fail stream)) (streams two_sources) \<and>
   list_all (\<lambda>(stream, gain). \<not> delivers (all_fail stream)) (streams two_sources) \<and>
   read_and_mix all_fail two_sources = Inr (replicate (CHUNK_SIZE * BYTES_PER_SAMPLE) 0) \<and>
   capture_loop [Capture all_fail (Hypothesis None)] two_sources empty_trace =
     (None, \<lparr>emitted = [], fed = [replicate (CHUNK_SIZE * BYTES_PER_SAMPLE) 0], slept = []\<rparr>)"
proof -
  have a: "streams two_sources \<noteq> []" by (simp add: two_sources_def)
  have b: "list_all (\<lambda>(stream, gain). frame_sized (all_fail stream)) (streams two_sources)"
    by (simp add: two_sources_def all_fail_def frame_sized_def)
  have c: "list_all (\<lambda>(stream, gain). \<not> delivers (all_fail stream)) (streams two_sources)"
    by (simp add: two_sources_def all_fail_def delivers_def)
  have e: "cycle_events (process_chunk (Hypothesis None)) = []"
    by (simp add: cycle_events_def process_chunk_def get_text_def strip_def truthy_def)
  from read_and_mix_full_frame [OF a b, of "Hypothesis None" empty_trace] obtain out where
    o: "read_and_mix all_fail two_sources = Inr out"
    and cl: "capture_loop [Capture all_fail (Hypothesis None)] two_sources empty_trace =
      (None, empty_trace\<lparr>fed := fed empty_trace @ [out],
         emitted := emitted empty_trace @ cycle_events (process_chunk (Hypothesis None))\<rparr>)"
    and z: "list_all (\<lambda>(stream, gain). \<not> delivers (all_fail stream)) (streams two_sources) \<longrightarrow>
      out = replicate (CHUNK_SIZE * BYTES_PER_SAMPLE) 0"
    by blast
  from z c have out: "out = replicate (CHUNK_SIZE * BYTES_PER_SAMPLE) 0" by blast
  have tr: "empty_trace\<lparr>fed := fed empty_trace @ [out],
         emitted := emitted empty_trace @ cycle_events (process_chunk (Hypothesis None))\<rparr>
      = \<lparr>emitted = [], fed = [out], slept = []\<rparr>"
    by (simp add: empty_trace_def e)
  have r1: "read_and_mix all_fail two_sources = Inr (replicate (CHUNK_SIZE * BYTES_PER_SAMPLE) 0)"
    using o out by (simp only:)
  have r2: "capture_loop [Capture all_fail (Hypothesis None)] two_sources empty_trace =
     (None, \<lparr>emitted = [], fed = [replicate (CHUNK_SIZE * BYTES_PER_SAMPLE) 0], slept = []\<rparr>)"
    using cl tr out by (simp only:)
  show ?thesis by (intro conjI a b c r1 r2)
qed

text \<open>
  C10. With exactly one open handle whose gain is 1.0, \<open>read_and_mix\<close> returns the
  bytes read from that handle unchanged; for each of its samples \<open>s\<close>,
  \<^verbatim>\<open>int(s * 1.0)\<close> is \<open>s\<close> and clamping leaves \<open>s\<close> as it is.
\<close>

theorem unity_gain_identity:
  assumes "streams eng = [(stream, 1)]"
    and "io stream = Frame raw"
    and "length raw = CHUNK_SIZE * BYTES_PER_SAMPLE"
  shows "read_and_mix io eng = Inr raw \<and>
         list_all (\<lambda>s. py_int (fl (of_int s * 1)) = s \<and> clamp16 s = s) (unpack_pairs raw)"
proof -
  have a: "streams eng \<noteq> []" using assms(1) by simp
  have b: "list_all (\<lambda>(stream, gain). frame_sized (io stream)) (streams eng)"
    using assms by (simp add: frame_sized_def)
  have m: "clamp16 (mixed_sum io (streams eng) i) = sample_at raw i" for i
    using assms(1,2)
    by (simp add: mixed_sum_def contribution_def unity_gain_sample [OF sample_at_range, simplified]
        clamp16_id [OF sample_at_range])
  have len: "length raw = 2 * CHUNK_SIZE" using assms(3) by (simp add: BYTES_PER_SAMPLE_def)
  have "read_and_mix io eng = Inr raw"
    unfolding read_and_mix_eq [OF a b] m repack_frame [OF len] ..
  moreover have "list_all (\<lambda>s. py_int (fl (of_int s * 1)) = s \<and> clamp16 s = s) (unpack_pairs raw)"
  proof -
    have "\<forall>i<length (unpack_pairs raw). int16_range (unpack_pairs raw ! i)"
    proof (intro allI impI)
      fix i assume "i < length (unpack_pairs raw)"
      then have "2 * i + 1 < length raw" by (simp add: unpack_pairs_length) 
      from unpack_pairs_nth [OF this] show "int16_range (unpack_pairs raw ! i)"
        by (simp add: sample_at_range)
    qed
    then have "\<forall>s\<in>set (unpack_pairs raw). int16_range s"
      by (metis in_set_conv_nth)
    then show ?thesis
      using unity_gain_sample clamp16_id by (simp add: list_all_iff)
  qed
  ultimately show ?thesis by simp
qed

text \<open>A buffer that repeats the bytes 57 and 48 comes back unchanged.\<close>

theorem unity_gain_identity_witness:
  "streams unity_source = [(0, 1)] \<and>
   (\<lambda>stream. Frame (const_frame 57 48)) (0::nat) = Frame (const_frame 57 48) \<and>
   length (const_frame 57 48) = CHUNK_SIZE * BYTES_PER_SAMPLE \<and>
   read_and_mix (\<lambda>stream. Frame (const_frame 57 48)) unity_source = Inr (const_frame 57 48)"
proof -
  have a: "streams unity_source = [(0, 1)]" by (simp add: unity_source_def)
  have b: "(\<lambda>stream::stream. Frame (const_frame 57 48)) 0 = Frame (const_frame 57 48)" by simp
  have c: "length (const_frame 57 48) = CHUNK_SIZE * BYTES_PER_SAMPLE" by (rule const_frame_length)
  show ?thesis using unity_gain_identity [OF a b c] a c by simp
qed

text \<open>
  C6. When the source list is empty, or every source is disabled, or every enabled source
  fails to open (any list in which each source is disabled or fails to open),
  \<open>open_streams\<close> ends with no open handle and raises the \<^verbatim>\<open>RuntimeError\<close> that
  reports that no stream could be opened; and \<open>read_and_mix\<close> on an engine without
  open handles returns the empty buffer and raises nothing.
\<close>

theorem open_streams_none_available:
  "(list_all (\<lambda>src. \<not> get_enabled src \<or> open_fails env src) sources \<longrightarrow>
      fst (open_streams env sources eng) = Some (RuntimeError no_streams_message) \<and>
      streams (snd (open_streams env sources eng)) = []) \<and>
   (streams eng = [] \<longrightarrow> read_and_mix io eng = Inr [])"
proof -
  have "fst (open_streams env sources eng) = Some (RuntimeError no_streams_message) \<and>
      streams (snd (open_streams env sources eng)) = []"
    if h: "list_all (\<lambda>src. \<not> get_enabled src \<or> open_fails env src) sources"
  proof -
    from open_loop_none_opened [OF h, of "close_streams env eng"]
    have "fst (open_loop env sources (close_streams env eng)) = None"
      and "streams (snd (open_loop env sources (close_streams env eng))) = []"
      by (simp_all add: close_streams_def)
    then show ?thesis
      by (cases "open_loop env sources (close_streams env eng)") (simp add: open_streams_def)
  qed
  then show ?thesis by (simp add: read_and_mix_def)
qed

text \<open>
  A disabled source followed by an enabled one whose device cannot be opened, and the
  empty list, each on an engine that held two handles.
\<close>

theorem open_streams_none_available_witness:
  "list_all (\<lambda>src. \<not> get_enabled src \<or> open_fails no_device src) disabled_and_busy \<and>
   fst (open_streams no_device disabled_and_busy two_sources) = Some (RuntimeError no_streams_message) \<and>
   streams (snd (open_streams no_device disabled_and_busy two_sources)) = [] \<and>
   list_all (\<lambda>src. \<not> get_enabled src \<or> open_fails no_device src) [] \<and>
   fst (open_streams no_device [] two_sources) = Some (RuntimeError no_streams_message) \<and>
   streams (snd (open_streams no_device [] two_sources)) = [] \<and>
   read_and_mix all_fail (snd (open_streams no_device [] two_sources)) = Inr []"
proof -
  have a: "list_all (\<lambda>src. \<not> get_enabled src \<or> open_fails no_device src) disabled_and_busy"
    by (simp add: disabled_and_busy_def get_enabled_def open_fails_def no_device_def)
  have b: "list_all (\<lambda>src. \<not> get_enabled src \<or> open_fails no_device src) []" by simp
  show ?thesis
    using open_streams_none_available [of no_device disabled_and_busy two_sources all_fail]
      open_streams_none_available [of no_device "[]" two_sources all_fail]
      open_streams_none_available [of no_device "[]" "snd (open_streams no_device [] two_sources)" all_fail]
      a b
    by simp
qed

subsection \<open>Recognition engine wrapper\<close>

text \<open>
  C5. For every answer of the recognizer, \<open>process_chunk\<close> returns a pair of which at
  least one component is \<open>None\<close>; an answer whose text is empty or consists of
  whitespace only gives \<open>None\<close> in both positions; and a text that is returned is the
  stripped text of the answer and is not empty.
\<close>

theorem process_chunk_exclusive:
  "(fst (process_chunk r) = None \<or> snd (process_chunk r) = None) \<and>
   (list_all isspace (reply_text r) \<longrightarrow> process_chunk r = (None, None)) \<and>
   (\<forall>t. fst (process_chunk r) = Some t \<or> snd (process_chunk r) = Some t \<longrightarrow>
        t = strip (reply_text r) \<and> t \<noteq> [])"
  by (cases r) (auto simp: process_chunk_def reply_text_def Let_def strip_blank)

text \<open>A whitespace-only utterance, and a partial hypothesis with a leading space.\<close>

theorem process_chunk_exclusive_witness:
  "list_all isspace (reply_text (Utterance (Some [32, 9, 10]))) \<and>
   process_chunk (Utterance (Some [32, 9, 10])) = (None, None) \<and>
   fst (process_chunk (Hypothesis (Some [32, 104, 105]))) = None \<and>
   snd (process_chunk (Hypothesis (Some [32, 104, 105]))) = Some [104, 105] \<and>
   [104, 105] = strip (reply_text (Hypothesis (Some [32, 104, 105])))"
proof -
  have a: "list_all isspace (reply_text (Utterance (Some [32, 9, 10])))"
    by (simp add: reply_text_def get_text_def isspace_def)
  have b: "snd (process_chunk (Hypothesis (Some [32, 104, 105]))) = Some [104, 105]"
    by (simp add: process_chunk_def get_text_def strip_def isspace_def)
  show ?thesis
    using process_chunk_exclusive [of "Utterance (Some [32, 9, 10])"]
      process_chunk_exclusive [of "Hypothesis (Some [32, 104, 105])"] a b
    by auto
qed

subsection \<open>Handle set\<close>

text \<open>
  C7, as the code has it. \<open>open_streams\<close> first runs the closing loop over every
  handle it holds and only then opens devices: its calls are the closing loop's calls,
  none of which opens a device, followed by one \<^verbatim>\<open>open\<close> per enabled source it reaches. The
  closing loop calls \<^verbatim>\<open>is_active\<close> on every held handle and \<^verbatim>\<open>close\<close> on exactly those
  whose \<^verbatim>\<open>is_active\<close> and \<^verbatim>\<open>stop_stream\<close> do not raise \<^verbatim>\<open>OSError\<close>; the others are
  dropped unclosed. Afterwards the engine holds exactly the handles opened by this call,
  one per enabled source whose \<^verbatim>\<open>open\<close> succeeded, at most one per enabled source, and
  none of the handles held before.
\<close>

theorem open_streams_replaces:
  "calls (snd (open_streams env sources eng)) =
     calls eng @ close_loop env (streams eng) @ map Open (attempted sources) \<and>
   probed_streams (close_loop env (streams eng)) = map fst (streams eng) \<and>
   closed_streams (close_loop env (streams eng)) = filter (closable env) (map fst (streams eng)) \<and>
   filter is_open_call (close_loop env (streams eng)) = [] \<and>
   streams (snd (open_streams env sources eng)) =
     zip [next_stream eng..<next_stream eng + length (opened_gains env sources)]
         (opened_gains env sources) \<and>
   length (opened_gains env sources) \<le> length (filter get_enabled sources) \<and>
   (handles_issued eng \<longrightarrow>
      handles_issued (snd (open_streams env sources eng)) \<and>
      set (map fst (streams (snd (open_streams env sources eng)))) \<inter> set (map fst (streams eng)) = {})"
proof -
  let ?c = "close_streams env eng"
  let ?k = "length (opened_gains env sources)"
  have c: "calls ?c = calls eng @ close_loop env (streams eng)" "streams ?c = []"
    "next_stream ?c = next_stream eng"
    by (simp_all add: close_streams_def)
  note e = open_loop_effect [of env sources ?c, unfolded c]
  have s: "streams (snd (open_streams env sources eng)) =
     zip [next_stream eng..<next_stream eng + ?k] (opened_gains env sources)"
    using e by (simp add: open_streams_snd)
  have n: "next_stream (snd (open_streams env sources eng)) = next_stream eng + ?k"
    using e by (simp add: open_streams_snd)
  have fresh: "\<forall>p \<in> set (streams (snd (open_streams env sources eng))).
      next_stream eng \<le> fst p \<and> fst p < next_stream eng + ?k"
    unfolding s by (auto dest!: set_zip_leftD)
  have inv: "handles_issued (snd (open_streams env sources eng))"
    using fresh by (auto simp: handles_issued_def list_all_iff n)
  have disj: "set (map fst (streams (snd (open_streams env sources eng)))) \<inter> set (map fst (streams eng)) = {}"
    if "handles_issued eng"
  proof -
    from that have "\<forall>p \<in> set (streams eng). fst p < next_stream eng"
      by (auto simp: handles_issued_def list_all_iff)
    with fresh show ?thesis by fastforce
  qed
  show ?thesis
    using e s inv disj
    by (simp add: open_streams_snd close_loop_probes close_loop_closes close_loop_no_open
        opened_gains_bound)
qed

text \<open>An engine holding handle 0 opens one device and then holds handle 1 only.\<close>

theorem open_streams_replaces_witness:
  "handles_issued held_one \<and>
   handles_issued (snd (open_streams unplugged first_device held_one)) \<and>
   set (map fst (streams (snd (open_streams unplugged first_device held_one))))
     \<inter> set (map fst (streams held_one)) = {} \<and>
   streams (snd (open_streams unplugged first_device held_one)) = [(1, 1)]"
proof -
  have a: "handles_issued held_one" by (simp add: handles_issued_def held_one_def)
  have g: "opened_gains unplugged first_device = [1]"
    by (simp add: first_device_def get_enabled_def get_gain_def unplugged_def)
  have n: "next_stream held_one = 1" by (simp add: held_one_def)
  note t = open_streams_replaces [of unplugged first_device held_one]
  from t have "streams (snd (open_streams unplugged first_device held_one)) =
      zip [next_stream held_one..<next_stream held_one + length (opened_gains unplugged first_device)]
        (opened_gains unplugged first_device)" by blast
  then have s: "streams (snd (open_streams unplugged first_device held_one)) = [(1, 1)]"
    unfolding g n by simp
  from t a have "handles_issued (snd (open_streams unplugged first_device held_one)) \<and>
     set (map fst (streams (snd (open_streams unplugged first_device held_one))))
       \<inter> set (map fst (streams held_one)) = {}" by blast
  with a s show ?thesis by blast
qed

text \<open>
  C7 as stated fails: when \<^verbatim>\<open>is_active\<close> raises \<^verbatim>\<open>OSError\<close> on the held handle 0,
  \<open>open_streams\<close> never calls \<^verbatim>\<open>close\<close> on it, and opens handle 1.
\<close>

theorem open_streams_close_counterexample:
  "streams held_one = [(0, 1)] \<and>
   calls (snd (open_streams unplugged first_device held_one)) = [IsActive 0, Open 0] \<and>
   closed_streams (calls (snd (open_streams unplugged first_device held_one))) = [] \<and>
   streams (snd (open_streams unplugged first_device held_one)) = [(1, 1)]"
  by (simp add: open_streams_def close_streams_def held_one_def unplugged_def first_device_def
      get_enabled_def get_gain_def Let_def)

subsection \<open>Batch file pipeline\<close>

text \<open>
  C2, as the code has it. After chunk \<open>j\<close> of a run (chunks counted from 1)
  \<^verbatim>\<open>frames_processed\<close> is \<open>CHUNK_FRAMES * j\<close>, and the value computed is
  \<^verbatim>\<open>min(int((frames_processed / total_frames) * 100), 100)\<close>, where the quotient and the
  product are float operations, each rounded, and \<^verbatim>\<open>int\<close> truncates. The progress values
  emitted inside the chunk loop are these values for the chunks the loop gets through, in
  order, with every run of equal adjacent values emitted once; the loop gets through no
  more chunks than the file has, and through all of them when the flag is never set and
  nothing raises. The values emitted inside the loop are therefore strictly increasing, and
  they lie between 0 and 100. A run that completes then emits progress 100 once more,
  unconditionally, before the completion event; the loop has reached 100 by then, so its
  progress events end with 100 twice. A run that does not complete emits the loop's
  progress values, or none.
\<close>

theorem progress_deduplicated:
  "loop_progress env =
     remdups_adj (map (\<lambda>j. progress_pct (CHUNK_FRAMES * j) (getnframes env))
                    [1..<Suc (chunks_done env)]) \<and>
   progress_pct (CHUNK_FRAMES * j) (getnframes env) =
     min (py_int (fl (fl (of_nat (CHUNK_FRAMES * j) / of_nat (getnframes env)) * 100))) 100 \<and>
   chunks_done env \<le> chunk_count (getnframes env) \<and>
   (cancel_at env = None \<and> model_error env = None \<and> wave_error env = None \<longrightarrow>
      chunks_done env = chunk_count (getnframes env)) \<and>
   sorted_wrt (<) (loop_progress env) \<and>
   list_all (\<lambda>p. 0 \<le> p \<and> p \<le> 100) (loop_progress env) \<and>
   (finished_signal \<in> set (fst (file_worker_run env w)) \<longrightarrow>
      progress_values (fst (file_worker_run env w)) = loop_progress env @ [100] \<and>
      loop_progress env \<noteq> [] \<and> last (loop_progress env) = 100) \<and>
   (finished_signal \<notin> set (fst (file_worker_run env w)) \<longrightarrow>
      progress_values (fst (file_worker_run env w)) = loop_progress env \<or>
      progress_values (fst (file_worker_run env w)) = [])"
proof -
  note dedup = loop_progress_dedup [of env]
  have formula: "progress_pct (CHUNK_FRAMES * j) (getnframes env) =
     min (py_int (fl (fl (of_nat (CHUNK_FRAMES * j) / of_nat (getnframes env)) * 100))) 100"
    by (simp only: progress_pct_def)
  note count = chunks_done_le [of env]
  have full: "cancel_at env = None \<and> model_error env = None \<and> wave_error env = None \<longrightarrow>
      chunks_done env = chunk_count (getnframes env)"
    using chunks_done_undisturbed by blast
  note shape = loop_progress_shape [of env]
  have rest: "(finished_signal \<in> set (fst (file_worker_run env w)) \<longrightarrow>
      progress_values (fst (file_worker_run env w)) = loop_progress env @ [100] \<and>
      loop_progress env \<noteq> [] \<and> last (loop_progress env) = 100) \<and>
   (finished_signal \<notin> set (fst (file_worker_run env w)) \<longrightarrow>
      progress_values (fst (file_worker_run env w)) = loop_progress env \<or>
      progress_values (fst (file_worker_run env w)) = [])"
  proof (cases env w rule: run_cases)
    case (loop_cancel fp evs)
    have "filter terminal evs = []"
      using chunk_loop_no_terminal [of env "getnframes env" 0 "getnframes env" 0 "- 1"] loop_cancel(7)
      by simp
    then have "finished_signal \<notin> set evs" by (rule no_terminal_no_finished)
    then show ?thesis using loop_cancel by (simp add: loop_progress_def)
  next
    case (loop_raised m fp evs)
    have "filter terminal evs = []"
      using chunk_loop_no_terminal [of env "getnframes env" 0 "getnframes env" 0 "- 1"] loop_raised(7)
      by simp
    then have "finished_signal \<notin> set evs" by (rule no_terminal_no_finished)
    then show ?thesis
      using loop_raised by (simp add: loop_progress_def progress_values_append)
  next
    case (completed fp evs)
    have pv: "progress_values (fst (file_worker_run env w)) = loop_progress env @ [100]"
      using completed
      by (simp add: loop_progress_def progress_values_append progress_values_text_events)
    have "fst (chunk_loop env (getnframes env) 0 (getnframes env) 0 (- 1)) = Exhausted"
      using completed(7) by simp
    from chunk_loop_reaches_100 [OF this _ completed(6) completed(6)]
    have m: "100 \<in> set (loop_progress env)" by (simp add: loop_progress_def)
    then have ne: "loop_progress env \<noteq> []" by auto
    have "last (loop_progress env) = 100"
      using shape m by (intro strict_sorted_last) (auto simp: list_all_iff)
    then show ?thesis using pv ne completed(8) by simp
  qed simp_all
  from dedup formula count full shape rest show ?thesis by blast
qed

text \<open>
  The run over 12000 frames gets through 3 chunks and emits 33, 66, 100 inside the loop.
  After chunk 29 of a file of 400000 frames the value computed is 28: the float product
  of 0.29 and 100 is below 29. The run over 8000 frames, undisturbed and cancelled after
  the first chunk.
\<close>

theorem progress_deduplicated_witness:
  "cancel_at env12000 = None \<and> model_error env12000 = None \<and> wave_error env12000 = None \<and>
   chunks_done env12000 = 3 \<and>
   loop_progress env12000 = [33, 66, 100] \<and>
   min (py_int (fl (fl (of_nat (CHUNK_FRAMES * 29) / of_nat (getnframes env400000)) * 100))) 100 = 28 \<and>
   finished_signal \<in> set (fst (file_worker_run env8000 new_worker)) \<and>
   loop_progress env8000 = [50, 100] \<and>
   progress_values (fst (file_worker_run env8000 new_worker)) = loop_progress env8000 @ [100] \<and>
   last (loop_progress env8000) = 100 \<and>
   finished_signal \<notin> set (fst (file_worker_run cancelled8000 new_worker)) \<and>
   (progress_values (fst (file_worker_run cancelled8000 new_worker)) = loop_progress cancelled8000 \<or>
    progress_values (fst (file_worker_run cancelled8000 new_worker)) = [])"
proof -
  have q: "cancel_at env12000 = None \<and> model_error env12000 = None \<and> wave_error env12000 = None"
    by (simp add: env12000_def env8000_def)
  have n: "getnframes env12000 = 12000" "getnframes env400000 = 400000"
    by (simp_all add: env12000_def env400000_def)
  have p: "progress_pct CHUNK_FRAMES 12000 = 33" "progress_pct (CHUNK_FRAMES * 2) 12000 = 66"
      "progress_pct (CHUNK_FRAMES * 3) 12000 = 100" "progress_pct (CHUNK_FRAMES * 29) 400000 = 28"
    by (simp_all add: CHUNK_FRAMES_def pct_third pct_two_thirds progress_pct_12000 pct_29)
  have a: "finished_signal \<in> set (fst (file_worker_run env8000 new_worker))"
    by (simp add: run8000)
  have b: "loop_progress env8000 = [50, 100]"
    using loop8000 by (simp add: loop_progress_def env8000_def)
  have c: "finished_signal \<notin> set (fst (file_worker_run cancelled8000 new_worker))"
    by (simp add: run8000_cancelled)
  from progress_deduplicated [of env12000 1 new_worker] q
  have d: "chunks_done env12000 = 3" by (simp add: n chunk_count_12000)
  from progress_deduplicated [of env12000 1 new_worker]
  have "loop_progress env12000 =
     remdups_adj (map (\<lambda>j. progress_pct (CHUNK_FRAMES * j) (getnframes env12000))
                    [1..<Suc (chunks_done env12000)])"
    by (rule conjunct1)
  then have e: "loop_progress env12000 = [33, 66, 100]"
    unfolding d upt_1_4 n by (simp add: p)
  from progress_deduplicated [of env400000 29 new_worker]
  have f: "min (py_int (fl (fl (of_nat (CHUNK_FRAMES * 29) / of_nat (getnframes env400000)) * 100))) 100 = 28"
    unfolding n using p(4) by simp
  from progress_deduplicated [of env8000 1 new_worker] a
  have g: "progress_values (fst (file_worker_run env8000 new_worker)) = loop_progress env8000 @ [100]"
    "last (loop_progress env8000) = 100"
    by blast+
  from progress_deduplicated [of cancelled8000 1 new_worker] c
  have h: "progress_values (fst (file_worker_run cancelled8000 new_worker)) = loop_progress cancelled8000 \<or>
    progress_values (fst (file_worker_run cancelled8000 new_worker)) = []"
    by blast
  from q d e f a b g c h show ?thesis by blast
qed

text \<open>
  C2 as stated fails: the run over 8000 frames with chunks of 4000 emits the progress
  events 50, 100, 100.
\<close>

theorem progress_duplicate_counterexample:
  "getnframes env8000 = 8000 \<and> CHUNK_FRAMES = 4000 \<and>
   progress_values (fst (file_worker_run env8000 new_worker)) = [50, 100, 100] \<and>
   \<not> sorted_wrt (<) (progress_values (fst (file_worker_run env8000 new_worker)))"
proof -
  have "getnframes env8000 = 8000" by (simp add: env8000_def)
  moreover have "CHUNK_FRAMES = 4000" by (simp add: CHUNK_FRAMES_def)
  moreover have "progress_values (fst (file_worker_run env8000 new_worker)) = [50, 100, 100]"
    by (simp add: run8000)
  ultimately show ?thesis by simp
qed

text \<open>
  C3, as the code has it. The terminal events of a batch run are those of the way it ends.
  On each failure path (ffmpeg missing, ffmpeg failing, the model directory missing, an
  exception while the model is loaded, while the converted file is opened or read, or in
  the recognizer, an empty file) the run emits exactly one error event, which carries that
  failure, also when the cancellation flag is set; on normal completion it emits exactly
  one completion event; when it returns because of the flag it emits no terminal event, as
  the worker has no cancelled event, and this happens only when the flag was set. A
  terminal event is the last event of its run. So a run emits at most one terminal event,
  and exactly one when the flag is never set. Every batch run ends with \<^verbatim>\<open>_temp_wav\<close>
  reset and with the temporary file removed unless \<^verbatim>\<open>os.remove\<close> raised. A capture worker
  whose \<open>open_streams\<close> raises emits exactly one error event and runs no cycle; when the
  error is the one for no stream, it holds no handle. A capture worker in whose loop
  \<open>read_and_mix\<close> raises lets the exception leave \<^verbatim>\<open>run\<close>: it emits no error event
  and keeps the streams it opened, without closing them.
\<close>

theorem terminal_events:
  "filter terminal (fst (file_worker_run env new_worker)) = outcome_events (run_outcome env) \<and>
   (run_outcome env = Stopped \<or>
    fst (file_worker_run env new_worker) \<noteq> [] \<and>
    [last (fst (file_worker_run env new_worker))] = outcome_events (run_outcome env)) \<and>
   (run_outcome env = Stopped \<longrightarrow> cancel_at env \<noteq> None) \<and>
   length (filter terminal (fst (file_worker_run env new_worker))) \<le> 1 \<and>
   (cancel_at env = None \<longrightarrow> length (filter terminal (fst (file_worker_run env new_worker))) = 1) \<and>
   temp_wav (snd (file_worker_run env new_worker)) = None \<and>
   (temp_file_exists (snd (file_worker_run env new_worker)) \<longrightarrow> remove_raises env) \<and>
   (fst (open_streams penv sources eng) = Some e \<longrightarrow>
      audio_worker_run penv sources schedule flush eng =
        (None, \<lparr>emitted = [worker_error_occurred e], fed = [], slept = []\<rparr>,
         snd (open_streams penv sources eng))) \<and>
   (fst (open_streams penv sources eng) = Some (RuntimeError no_streams_message) \<longrightarrow>
      streams (snd (open_streams penv sources eng)) = []) \<and>
   (fst (open_streams penv sources eng) = None \<and>
    fst (capture_loop schedule (snd (open_streams penv sources eng))
           \<lparr>emitted = [], fed = [], slept = []\<rparr>) = Some e \<longrightarrow>
      fst (audio_worker_run penv sources schedule flush eng) = Some e \<and>
      filter worker_terminal (emitted (fst (snd (audio_worker_run penv sources schedule flush eng)))) = [] \<and>
      snd (snd (audio_worker_run penv sources schedule flush eng)) = snd (open_streams penv sources eng) \<and>
      streams (snd (open_streams penv sources eng)) \<noteq> [])"
proof -
  note kinds = run_ends_as_outcome [of env new_worker]
  have stopped: "run_outcome env = Stopped \<longrightarrow> cancel_at env \<noteq> None"
    using not_cancelled_not_stopped by blast
  have le: "length (filter terminal (fst (file_worker_run env new_worker))) \<le> 1"
    using kinds by (cases "run_outcome env") simp_all
  have one: "cancel_at env = None \<longrightarrow>
      length (filter terminal (fst (file_worker_run env new_worker))) = 1"
    using kinds stopped by (cases "run_outcome env") simp_all
  note cleanup = run_cleanup [of env]
  have failed: "fst (open_streams penv sources eng) = Some e \<longrightarrow>
      audio_worker_run penv sources schedule flush eng =
        (None, \<lparr>emitted = [worker_error_occurred e], fed = [], slept = []\<rparr>,
         snd (open_streams penv sources eng))"
    by (cases "open_streams penv sources eng") (auto simp: audio_worker_run_def)
  have none: "fst (open_streams penv sources eng) = Some (RuntimeError no_streams_message) \<longrightarrow>
      streams (snd (open_streams penv sources eng)) = []"
    using open_streams_runtime_error by blast
  have raised: "fst (open_streams penv sources eng) = None \<and>
    fst (capture_loop schedule (snd (open_streams penv sources eng))
           \<lparr>emitted = [], fed = [], slept = []\<rparr>) = Some e \<longrightarrow>
      fst (audio_worker_run penv sources schedule flush eng) = Some e \<and>
      filter worker_terminal (emitted (fst (snd (audio_worker_run penv sources schedule flush eng)))) = [] \<and>
      snd (snd (audio_worker_run penv sources schedule flush eng)) = snd (open_streams penv sources eng) \<and>
      streams (snd (open_streams penv sources eng)) \<noteq> []"
  proof (intro impI, elim conjE)
    assume o: "fst (open_streams penv sources eng) = None"
      and c: "fst (capture_loop schedule (snd (open_streams penv sources eng))
           \<lparr>emitted = [], fed = [], slept = []\<rparr>) = Some e"
    obtain eng' where oe: "open_streams penv sources eng = (None, eng')"
      using o by (cases "open_streams penv sources eng") simp
    obtain tr where ce: "capture_loop schedule eng' \<lparr>emitted = [], fed = [], slept = []\<rparr> = (Some e, tr)"
      using c oe by (cases "capture_loop schedule eng' \<lparr>emitted = [], fed = [], slept = []\<rparr>") simp
    have run: "audio_worker_run penv sources schedule flush eng = (Some e, tr, eng')"
      by (simp add: audio_worker_run_def oe ce)
    have "filter worker_terminal (emitted tr) = []"
      using capture_loop_no_error [of schedule eng' "\<lparr>emitted = [], fed = [], slept = []\<rparr>"] ce
      by simp
    then show "fst (audio_worker_run penv sources schedule flush eng) = Some e \<and>
      filter worker_terminal (emitted (fst (snd (audio_worker_run penv sources schedule flush eng)))) = [] \<and>
      snd (snd (audio_worker_run penv sources schedule flush eng)) = snd (open_streams penv sources eng) \<and>
      streams (snd (open_streams penv sources eng)) \<noteq> []"
      using run oe open_streams_ok_nonempty [OF o] by simp
  qed
  from kinds stopped le one cleanup failed none raised show ?thesis by blast
qed

text \<open>
  The undisturbed batch run; the run without ffmpeg whose flag is set; the run whose
  second read raises; the cancelled run; the one whose file cannot be removed; a capture
  worker on an audio layer without a usable device; and a capture worker whose stream
  returns a short buffer.
\<close>

theorem terminal_events_witness:
  "run_outcome env8000 = Completed \<and> cancel_at env8000 = None \<and>
   filter terminal (fst (file_worker_run env8000 new_worker)) = [finished_signal] \<and>
   last (fst (file_worker_run env8000 new_worker)) = finished_signal \<and>
   length (filter terminal (fst (file_worker_run env8000 new_worker))) = 1 \<and>
   run_outcome no_tool_cancelled = Failed FfmpegNotInstalled \<and> cancel_at no_tool_cancelled = Some 3 \<and>
   filter terminal (fst (file_worker_run no_tool_cancelled new_worker)) =
     [error_occurred FfmpegNotInstalled] \<and>
   run_outcome broken_read = Failed (Unexpected ''file read failed'') \<and>
   filter terminal (fst (file_worker_run broken_read new_worker)) =
     [error_occurred (Unexpected ''file read failed'')] \<and>
   last (fst (file_worker_run broken_read new_worker)) =
     error_occurred (Unexpected ''file read failed'') \<and>
   run_outcome cancelled8000 = Stopped \<and> cancel_at cancelled8000 \<noteq> None \<and>
   filter terminal (fst (file_worker_run cancelled8000 new_worker)) = [] \<and>
   temp_file_exists (snd (file_worker_run locked8000 new_worker)) \<and>
   remove_raises locked8000 \<and>
   fst (open_streams no_device disabled_and_busy two_sources) = Some (RuntimeError no_streams_message) \<and>
   audio_worker_run no_device disabled_and_busy [] None two_sources =
     (None, \<lparr>emitted = [worker_error_occurred (RuntimeError no_streams_message)], fed = [], slept = []\<rparr>,
      snd (open_streams no_device disabled_and_busy two_sources)) \<and>
   streams (snd (open_streams no_device disabled_and_busy two_sources)) = [] \<and>
   fst (open_streams unplugged first_device held_one) = None \<and>
   fst (capture_loop [Capture short_read (Hypothesis None)]
          (snd (open_streams unplugged first_device held_one))
          \<lparr>emitted = [], fed = [], slept = []\<rparr>) = Some StructError \<and>
   fst (audio_worker_run unplugged first_device [Capture short_read (Hypothesis None)] None held_one) =
     Some StructError \<and>
   filter worker_terminal (emitted (fst (snd (audio_worker_run unplugged first_device
      [Capture short_read (Hypothesis None)] None held_one)))) = [] \<and>
   streams (snd (snd (audio_worker_run unplugged first_device [Capture short_read (Hypothesis None)]
      None held_one))) \<noteq> []"
proof -
  note o = outcome8000 outcome_no_tool outcome8000_broken outcome8000_cancelled
  have a: "cancel_at env8000 = None" "cancel_at no_tool_cancelled = Some 3"
    by (simp_all add: env8000_def no_tool_cancelled_def)
  have c: "temp_file_exists (snd (file_worker_run locked8000 new_worker))"
    by (simp add: run8000_locked)
  have d: "fst (open_streams no_device disabled_and_busy two_sources) =
      Some (RuntimeError no_streams_message)"
    by (simp add: open_streams_def close_streams_def disabled_and_busy_def no_device_def
        two_sources_def get_enabled_def Let_def)
  have e: "open_streams unplugged first_device held_one =
      (None, \<lparr>streams = [(1, 1)], next_stream = 2, calls = [IsActive 0, Open 0]\<rparr>)"
    by (simp add: open_streams_def close_streams_def first_device_def unplugged_def
        held_one_def get_enabled_def get_gain_def Let_def)
  have f: "fst (capture_loop [Capture short_read (Hypothesis None)]
          (snd (open_streams unplugged first_device held_one))
          \<lparr>emitted = [], fed = [], slept = []\<rparr>) = Some StructError"
    by (simp add: e read_and_mix_def short_read_def struct_unpack_def CHUNK_SIZE_def
        BYTES_PER_SAMPLE_def)
  from terminal_events [of env8000 no_device disabled_and_busy two_sources
        "RuntimeError no_streams_message" "[]" None] o(1)
  have g: "filter terminal (fst (file_worker_run env8000 new_worker)) = [finished_signal]"
    "last (fst (file_worker_run env8000 new_worker)) = finished_signal"
    by simp_all
  from terminal_events [of env8000 no_device disabled_and_busy two_sources
        "RuntimeError no_streams_message" "[]" None] a(1)
  have g1: "length (filter terminal (fst (file_worker_run env8000 new_worker))) = 1"
    by blast
  from terminal_events [of no_tool_cancelled no_device disabled_and_busy two_sources
        "RuntimeError no_streams_message" "[]" None] o(2)
  have h: "filter terminal (fst (file_worker_run no_tool_cancelled new_worker)) =
     [error_occurred FfmpegNotInstalled]"
    by simp
  from terminal_events [of broken_read no_device disabled_and_busy two_sources
        "RuntimeError no_streams_message" "[]" None] o(3)
  have i: "filter terminal (fst (file_worker_run broken_read new_worker)) =
     [error_occurred (Unexpected ''file read failed'')]"
    "last (fst (file_worker_run broken_read new_worker)) =
     error_occurred (Unexpected ''file read failed'')"
    by simp_all
  from terminal_events [of cancelled8000 no_device disabled_and_busy two_sources
        "RuntimeError no_streams_message" "[]" None] o(4)
  have j: "cancel_at cancelled8000 \<noteq> None"
    "filter terminal (fst (file_worker_run cancelled8000 new_worker)) = []"
    by simp_all
  from terminal_events [of locked8000 no_device disabled_and_busy two_sources
        "RuntimeError no_streams_message" "[]" None] c d
  have k: "remove_raises locked8000"
    "audio_worker_run no_device disabled_and_busy [] None two_sources =
     (None, \<lparr>emitted = [worker_error_occurred (RuntimeError no_streams_message)], fed = [], slept = []\<rparr>,
      snd (open_streams no_device disabled_and_busy two_sources))"
    "streams (snd (open_streams no_device disabled_and_busy two_sources)) = []"
    by simp_all
  from terminal_events [of env8000 unplugged first_device held_one StructError
        "[Capture short_read (Hypothesis None)]" None] f
  have l: "fst (audio_worker_run unplugged first_device [Capture short_read (Hypothesis None)] None held_one) =
     Some StructError"
    "filter worker_terminal (emitted (fst (snd (audio_worker_run unplugged first_device
      [Capture short_read (Hypothesis None)] None held_one)))) = []"
    "streams (snd (snd (audio_worker_run unplugged first_device [Capture short_read (Hypothesis None)]
      None held_one))) \<noteq> []"
    by (simp_all add: e)
  from o a c d e f g g1 h i j k l show ?thesis by simp
qed

text \<open>
  C3 as stated fails: the batch run cancelled after its first chunk emits one progress
  event and no terminal event.
\<close>

theorem cancelled_run_counterexample:
  "cancel_at cancelled8000 = Some 2 \<and>
   fst (file_worker_run cancelled8000 new_worker) = [progress_updated 50] \<and>
   filter terminal (fst (file_worker_run cancelled8000 new_worker)) = [] \<and>
   temp_file_exists (snd (file_worker_run cancelled8000 new_worker)) = False"
proof -
  have "cancel_at cancelled8000 = Some 2" by (simp add: cancelled8000_def)
  then show ?thesis by (simp add: run8000_cancelled)
qed

text \<open>
  C4, as the code has it. In a run whose conversion and loading succeed, and in which
  neither the file nor the recognizer raises, on a file of fewer than \<open>2 ^ 32\<close>
  frames, if the flag is first seen set at the check before chunk
  \<open>k + 1\<close> (chunks counted from 1, and chunk \<open>k + 1\<close> exists), the loop stops at
  that check with exactly \<open>k\<close> chunks processed; the run emits no completion event,
  no progress 100 and no error; \<^verbatim>\<open>_temp_wav\<close> is reset, and the temporary file is gone
  unless \<^verbatim>\<open>os.remove\<close> raised \<^verbatim>\<open>OSError\<close>.
\<close>

theorem cancel_between_chunks:
  assumes "converted env" and "loadable env"
    and "cancel_at env = Some (Suc k)"
    and "CHUNK_FRAMES * k < getnframes env"
    and "getnframes env < 2 ^ 32"
  shows "chunk_loop env (getnframes env) 0 (getnframes env) 0 (- 1) =
           (Cancelled, CHUNK_FRAMES * k, fst (file_worker_run env new_worker)) \<and>
         finished_signal \<notin> set (fst (file_worker_run env new_worker)) \<and>
         progress_updated 100 \<notin> set (fst (file_worker_run env new_worker)) \<and>
         filter terminal (fst (file_worker_run env new_worker)) = [] \<and>
         temp_wav (snd (file_worker_run env new_worker)) = None \<and>
         temp_file_exists (snd (file_worker_run env new_worker)) = remove_raises env"
proof -
  let ?t = "getnframes env"
  have nc0: "\<not> is_cancelled env 0" using assms(3) by (simp add: is_cancelled_def)
  have pos: "0 < ?t" using assms(4) by simp
  have quiet: "model_error env = None" "wave_error env = None" "model_dir_exists env"
    using assms(2) by (simp_all add: loadable_def)
  have nf: "load_failure env = None" "open_failure env = None"
    using quiet by (simp_all add: load_failure_def open_failure_def)
  from chunk_loop_cancelled_at [OF assms(3) quiet(1,2), of 0 "?t" 0 "?t" "- 1"] assms(4,5)
  have ex: "fst (chunk_loop env ?t 0 ?t 0 (- 1)) = Cancelled"
    and fp: "fst (snd (chunk_loop env ?t 0 ?t 0 (- 1))) = CHUNK_FRAMES * k"
    and le: "list_all (\<lambda>p. p \<le> 99) (progress_values (snd (snd (chunk_loop env ?t 0 ?t 0 (- 1)))))"
    by simp_all
  show ?thesis
  proof (cases env new_worker rule: run_cases)
    case (loop_cancel fp' evs)
    have nt: "filter terminal evs = []"
      using chunk_loop_no_terminal [of env ?t 0 ?t 0 "- 1"] loop_cancel(7) by simp
    have "100 \<notin> set (progress_values evs)"
      using le loop_cancel(7) by (auto simp: list_all_iff)
    then have "progress_updated 100 \<notin> set evs" by (simp add: progress_values_mem)
    then show ?thesis
      using loop_cancel nt no_terminal_no_finished [OF nt] fp
      by (simp add: cleanup_created)
  next
    case (loop_raised m fp' evs)
    then show ?thesis using ex by simp
  next
    case (completed fp' evs)
    then show ?thesis using ex by simp
  qed (use assms nc0 pos quiet nf in \<open>simp_all add: converted_def\<close>)
qed

text \<open>The run over 8000 frames, cancelled after chunk 1.\<close>

theorem cancel_between_chunks_witness:
  "converted cancelled8000 \<and> loadable cancelled8000 \<and> cancel_at cancelled8000 = Some (Suc 1) \<and>
   CHUNK_FRAMES * 1 < getnframes cancelled8000 \<and> getnframes cancelled8000 < 2 ^ 32 \<and>
   chunk_loop cancelled8000 (getnframes cancelled8000) 0 (getnframes cancelled8000) 0 (- 1) =
     (Cancelled, CHUNK_FRAMES * 1, fst (file_worker_run cancelled8000 new_worker)) \<and>
   finished_signal \<notin> set (fst (file_worker_run cancelled8000 new_worker)) \<and>
   progress_updated 100 \<notin> set (fst (file_worker_run cancelled8000 new_worker)) \<and>
   temp_wav (snd (file_worker_run cancelled8000 new_worker)) = None \<and>
   temp_file_exists (snd (file_worker_run cancelled8000 new_worker)) = remove_raises cancelled8000"
proof -
  have a: "converted cancelled8000" by (simp add: converted_def cancelled8000_def env8000_def)
  have b: "loadable cancelled8000" by (simp add: loadable_def cancelled8000_def env8000_def)
  have c: "cancel_at cancelled8000 = Some (Suc 1)" by (simp add: cancelled8000_def)
  have d: "CHUNK_FRAMES * 1 < getnframes cancelled8000"
    by (simp add: CHUNK_FRAMES_def cancelled8000_def env8000_def)
  have e: "getnframes cancelled8000 < 2 ^ 32" by (simp add: cancelled8000_def env8000_def)
  from cancel_between_chunks [OF a b c d e] a b c d e show ?thesis by blast
qed

text \<open>
  C4 as stated fails: when \<^verbatim>\<open>os.remove\<close> raises, the run cancelled after chunk 1 leaves
  the temporary file on disk.
\<close>

theorem cancel_cleanup_counterexample:
  "converted locked8000 \<and> loadable locked8000 \<and> cancel_at locked8000 = Some 2 \<and>
   fst (file_worker_run locked8000 new_worker) = [progress_updated 50] \<and>
   temp_file_exists (snd (file_worker_run locked8000 new_worker)) = True"
proof -
  have "converted locked8000" "loadable locked8000" "cancel_at locked8000 = Some 2"
    by (simp_all add: converted_def loadable_def locked8000_def env8000_def)
  then show ?thesis by (simp add: run8000_locked)
qed

end
